theory Spec2Isabelle
  imports Main
begin

section \<open>The machine the container runs on\<close>

text \<open>
  The class \<open>vectorClass<T>\<close> of \<open>vectorImplementation.cpp\<close> owns a raw array that it
  allocates with \<open>new T[n]\<close>, indexes without any bounds check and releases with
  \<open>delete[]\<close>; its two counters are C++ \<open>int\<close>s. Everything the C++ standard leaves
  undefined on that path is a value of \<open>error\<close> here, so that a run of the model that
  returns \<open>Inr\<close> is a run of the program whose behaviour is defined:
  \<^item> \<open>SignedOverflow\<close>: an \<open>int\<close> expression leaves the range of a 32-bit \<open>int\<close>;
  \<^item> \<open>BadArrayNewLength\<close>: \<open>new T[n]\<close> with a negative \<open>n\<close> (the exception
    \<open>std::bad_array_new_length\<close>);
  \<^item> \<open>OutOfBounds\<close>: \<open>p[i]\<close> with \<open>i\<close> outside the array \<open>p\<close> points to;
  \<^item> \<open>UninitialisedRead\<close>: reading a slot of \<open>new T[n]\<close> that was never written;
  \<^item> \<open>DanglingPointer\<close>: using or deleting a pointer to no live array.
  Memory is unbounded: \<open>new\<close> never fails for lack of memory.
\<close>

datatype error =
  SignedOverflow | BadArrayNewLength | OutOfBounds | UninitialisedRead | DanglingPointer

text \<open>
  An \<open>int\<close> is taken to be 32 bits wide, as it is on the platforms this program is
  compiled for; a value of type \<open>int\<close> is a HOL integer between \<open>INT_MIN\<close> and
  \<open>INT_MAX\<close>, and \<open>checked\<close> is the test every arithmetic result has to pass.
\<close>

definition INT_MAX :: int where
  "INT_MAX = 2147483647"

definition INT_MIN :: int where
  "INT_MIN = - 2147483648"

definition checked :: "int \<Rightarrow> error + int" where
  "checked x = (if INT_MIN \<le> x \<and> x \<le> INT_MAX then Inr x else Inl SignedOverflow)"

text \<open>
  A block is one array allocation: a slot is \<open>None\<close> until it is first written. The heap
  is the list of all allocations made so far, a freed one replaced by \<open>None\<close>; a pointer
  is a position in that list, so a new allocation never aliases an older one.
\<close>

type_synonym 'a block = "'a option list"
type_synonym 'a heap = "'a block option list"

definition block_at :: "'a heap \<Rightarrow> nat \<Rightarrow> 'a block option" where
  "block_at h p = (if p < length h then h ! p else None)"

definition new_array :: "'a heap \<Rightarrow> int \<Rightarrow> error + ('a heap \<times> nat)" where
  "new_array h n =
     (if n < 0 then Inl BadArrayNewLength
      else Inr (h @ [Some (replicate (nat n) None)], length h))"

definition delete_array :: "'a heap \<Rightarrow> nat \<Rightarrow> error + 'a heap" where
  "delete_array h p =
     (case block_at h p of
        None \<Rightarrow> Inl DanglingPointer
      | Some b \<Rightarrow> Inr (h[p := None]))"

definition load :: "'a heap \<Rightarrow> nat \<Rightarrow> int \<Rightarrow> error + 'a" where
  "load h p i =
     (case block_at h p of
        None \<Rightarrow> Inl DanglingPointer
      | Some b \<Rightarrow>
          if 0 \<le> i \<and> i < int (length b) then
            (case b ! nat i of None \<Rightarrow> Inl UninitialisedRead | Some v \<Rightarrow> Inr v)
          else Inl OutOfBounds)"

definition store :: "'a heap \<Rightarrow> nat \<Rightarrow> int \<Rightarrow> 'a \<Rightarrow> error + 'a heap" where
  "store h p i v =
     (case block_at h p of
        None \<Rightarrow> Inl DanglingPointer
      | Some b \<Rightarrow>
          if 0 \<le> i \<and> i < int (length b) then Inr (h[p := Some (b[nat i := Some v])])
          else Inl OutOfBounds)"

section \<open>The class \<open>vectorClass<T>\<close>\<close>

record vectorClass =
  arr :: nat
  capacity :: int
  current :: int

text \<open>The constructor: \<open>arr = new T[1]; capacity = 1; current = 0\<close>.\<close>

definition construct :: "'a heap \<Rightarrow> error + ('a heap \<times> vectorClass)" where
  "construct h =
     (case new_array h 1 of
        Inl e \<Rightarrow> Inl e
      | Inr (h', p) \<Rightarrow> Inr (h', \<lparr>arr = p, capacity = 1, current = 0\<rparr>))"

text \<open>
  The destructor: \<open>delete[] arr\<close>. It ends the life of the object and is not one of the
  calls of a sequence below.
\<close>

definition destruct :: "'a heap \<Rightarrow> vectorClass \<Rightarrow> error + 'a heap" where
  "destruct h this = delete_array h (arr this)"

text \<open>
  The loop \<open>for (int i = 0; i < capacity; i++) tmep[i] = arr[i]\<close> of \<open>push\<close>. The
  increment cannot overflow: it runs only while \<open>i < capacity\<close>.
\<close>

function copy_loop :: "'a heap \<Rightarrow> nat \<Rightarrow> nat \<Rightarrow> int \<Rightarrow> int \<Rightarrow> error + 'a heap" where
  "copy_loop h src dst i cap =
     (if i < cap then
        (case load h src i of
           Inl e \<Rightarrow> Inl e
         | Inr v \<Rightarrow>
             (case store h dst i v of
                Inl e \<Rightarrow> Inl e
              | Inr h' \<Rightarrow> copy_loop h' src dst (i + 1) cap))
      else Inr h)"
  by pat_completeness auto
termination
  by (relation "measure (\<lambda>(h, src, dst, i, cap). nat (cap - i))") auto

declare copy_loop.simps [simp del]

text \<open>
  The body of \<open>if (capacity == current)\<close> in \<open>push\<close>: allocate \<open>2 * capacity\<close> slots, copy,
  \<open>delete[] arr\<close>, \<open>capacity = capacity * 2\<close>, \<open>arr = tmep\<close>.
\<close>

definition grow :: "'a heap \<Rightarrow> vectorClass \<Rightarrow> error + ('a heap \<times> vectorClass)" where
  "grow h this =
     (case checked (2 * capacity this) of
        Inl e \<Rightarrow> Inl e
      | Inr n \<Rightarrow>
     (case new_array h n of
        Inl e \<Rightarrow> Inl e
      | Inr (h1, tmep) \<Rightarrow>
     (case copy_loop h1 (arr this) tmep 0 (capacity this) of
        Inl e \<Rightarrow> Inl e
      | Inr h2 \<Rightarrow>
     (case delete_array h2 (arr this) of
        Inl e \<Rightarrow> Inl e
      | Inr h3 \<Rightarrow>
     (case checked (capacity this * 2) of
        Inl e \<Rightarrow> Inl e
      | Inr c \<Rightarrow> Inr (h3, this\<lparr>capacity := c, arr := tmep\<rparr>))))))"

text \<open>The last two statements of \<open>push\<close>: \<open>arr[current] = data; current++\<close>.\<close>

definition put_last :: "'a heap \<Rightarrow> vectorClass \<Rightarrow> 'a \<Rightarrow> error + ('a heap \<times> vectorClass)" where
  "put_last h this data =
     (case store h (arr this) (current this) data of
        Inl e \<Rightarrow> Inl e
      | Inr h' \<Rightarrow>
     (case checked (current this + 1) of
        Inl e \<Rightarrow> Inl e
      | Inr c \<Rightarrow> Inr (h', this\<lparr>current := c\<rparr>)))"

text \<open>\<open>void push(T data)\<close>.\<close>

definition push :: "'a heap \<Rightarrow> vectorClass \<Rightarrow> 'a \<Rightarrow> error + ('a heap \<times> vectorClass)" where
  "push h this data =
     (if capacity this = current this then
        (case grow h this of
           Inl e \<Rightarrow> Inl e
         | Inr (h', this') \<Rightarrow> put_last h' this' data)
      else put_last h this data)"

text \<open>
  \<open>void push(T data, int index)\<close>. Its condition is the assignment \<open>index = capacity\<close>:
  the parameter is overwritten with \<open>capacity\<close>, and the branch is taken when that value
  is not zero. The \<open>else\<close> branch therefore writes at the overwritten index.
\<close>

definition push_at :: "'a heap \<Rightarrow> vectorClass \<Rightarrow> 'a \<Rightarrow> int \<Rightarrow> error + ('a heap \<times> vectorClass)" where
  "push_at h this data index =
     (let index' = capacity this in
      if index' \<noteq> 0 then push h this data
      else
        (case store h (arr this) index' data of
           Inl e \<Rightarrow> Inl e
         | Inr h' \<Rightarrow> Inr (h', this)))"

text \<open>\<open>void pop(T data)\<close>: the single statement \<open>current--\<close>.\<close>

definition pop :: "vectorClass \<Rightarrow> 'a \<Rightarrow> error + vectorClass" where
  "pop this data =
     (case checked (current this - 1) of
        Inl e \<Rightarrow> Inl e
      | Inr c \<Rightarrow> Inr (this\<lparr>current := c\<rparr>))"

definition getSize :: "vectorClass \<Rightarrow> int" where
  "getSize this = current this"

definition getCapacity :: "vectorClass \<Rightarrow> int" where
  "getCapacity this = capacity this"

text \<open>What is sent to \<open>cout\<close>, one item for each \<open><<\<close>.\<close>

datatype 'a token = Text string | Number int | Value 'a | Endl

text \<open>\<open>void print()\<close>: \<open>for (int i = 0; i < current; i++) cout << arr[i] << " ,"\<close>, then \<open>endl\<close>.\<close>

function print_loop :: "'a heap \<Rightarrow> vectorClass \<Rightarrow> int \<Rightarrow> 'a token list \<Rightarrow> error + 'a token list" where
  "print_loop h this i out =
     (if i < current this then
        (case load h (arr this) i of
           Inl e \<Rightarrow> Inl e
         | Inr v \<Rightarrow> print_loop h this (i + 1) (out @ [Value v, Text '' ,'']))
      else Inr out)"
  by pat_completeness auto
termination
  by (relation "measure (\<lambda>(h, this, i, out). nat (current this - i))") auto

declare print_loop.simps [simp del]

definition print :: "'a heap \<Rightarrow> vectorClass \<Rightarrow> error + 'a token list" where
  "print h this =
     (case print_loop h this 0 [] of
        Inl e \<Rightarrow> Inl e
      | Inr out \<Rightarrow> Inr (out @ [Endl]))"

text \<open>
  \<open>T get(int index)\<close>: prints the element when \<open>index < current\<close> and returns \<open>-1\<close> in
  both cases. The \<open>return -1\<close> converts the \<open>int\<close> to \<open>T\<close>; that conversion belongs to the
  element type and is the parameter \<open>fromInt\<close>. The result is the output and the value
  returned.
\<close>

definition get :: "(int \<Rightarrow> 'a) \<Rightarrow> 'a heap \<Rightarrow> vectorClass \<Rightarrow> int \<Rightarrow> error + ('a token list \<times> 'a)" where
  "get fromInt h this index =
     (if index < current this then
        (case load h (arr this) index of
           Inl e \<Rightarrow> Inl e
         | Inr v \<Rightarrow>
             Inr ([Text ''At index '', Number index, Text '' : '', Value v, Endl], fromInt (- 1)))
      else Inr ([], fromInt (- 1)))"

section \<open>Sequences of calls on one object\<close>

datatype 'a call =
  Push 'a | PushAt 'a int | Pop 'a | GetSize | GetCapacity | Print | Get int

datatype 'a reply =
  Returned | ReturnedInt int | Printed "'a token list" | Got "'a token list" 'a

type_synonym 'a state = "'a heap \<times> vectorClass"

fun step :: "(int \<Rightarrow> 'a) \<Rightarrow> 'a state \<Rightarrow> 'a call \<Rightarrow> error + ('a state \<times> 'a reply)" where
  "step fromInt (h, this) (Push data) =
     (case push h this data of Inl e \<Rightarrow> Inl e | Inr s \<Rightarrow> Inr (s, Returned))"
| "step fromInt (h, this) (PushAt data index) =
     (case push_at h this data index of Inl e \<Rightarrow> Inl e | Inr s \<Rightarrow> Inr (s, Returned))"
| "step fromInt (h, this) (Pop data) =
     (case pop this data of Inl e \<Rightarrow> Inl e | Inr this' \<Rightarrow> Inr ((h, this'), Returned))"
| "step fromInt (h, this) GetSize = Inr ((h, this), ReturnedInt (getSize this))"
| "step fromInt (h, this) GetCapacity = Inr ((h, this), ReturnedInt (getCapacity this))"
| "step fromInt (h, this) Print =
     (case print h this of Inl e \<Rightarrow> Inl e | Inr out \<Rightarrow> Inr ((h, this), Printed out))"
| "step fromInt (h, this) (Get index) =
     (case get fromInt h this index of
        Inl e \<Rightarrow> Inl e
      | Inr (out, v) \<Rightarrow> Inr ((h, this), Got out v))"

fun run :: "(int \<Rightarrow> 'a) \<Rightarrow> 'a state \<Rightarrow> 'a call list \<Rightarrow> error + ('a state \<times> 'a reply list)" where
  "run fromInt s [] = Inr (s, [])"
| "run fromInt s (c # cs) =
     (case step fromInt s c of
        Inl e \<Rightarrow> Inl e
      | Inr (s', r) \<Rightarrow>
          (case run fromInt s' cs of
             Inl e \<Rightarrow> Inl e
           | Inr (s'', rs) \<Rightarrow> Inr (s'', r # rs)))"

text \<open>A freshly constructed object on an empty heap, then the calls in order.\<close>

definition session :: "(int \<Rightarrow> 'a) \<Rightarrow> 'a call list \<Rightarrow> error + ('a state \<times> 'a reply list)" where
  "session fromInt cs =
     (case construct [] of
        Inl e \<Rightarrow> Inl e
      | Inr s \<Rightarrow> run fromInt s cs)"

section \<open>Well-formed states and the contents of the container\<close>

text \<open>
  \<open>buffer_ok\<close> holds after every sequence of calls that returns: \<open>arr\<close> points to a live
  array of exactly \<open>capacity\<close> slots, \<open>capacity\<close> is at least 1, \<open>current\<close> does not exceed
  it, both are \<open>int\<close> values, and every slot below \<open>current\<close> has been written.
  \<open>well_formed\<close> adds \<open>0 \<le> current\<close>, which \<open>pop\<close> does not maintain.
\<close>

definition buffer_ok :: "'a heap \<Rightarrow> vectorClass \<Rightarrow> bool" where
  "buffer_ok h this =
     (case block_at h (arr this) of
        None \<Rightarrow> False
      | Some b \<Rightarrow>
          int (length b) = capacity this \<and> 1 \<le> capacity this \<and> capacity this \<le> INT_MAX \<and>
          INT_MIN \<le> current this \<and> current this \<le> capacity this \<and>
          list_all (\<lambda>x. x \<noteq> None) (take (nat (current this)) b))"

definition well_formed :: "'a heap \<Rightarrow> vectorClass \<Rightarrow> bool" where
  "well_formed h this = (buffer_ok h this \<and> 0 \<le> current this)"

text \<open>The live elements, slots \<open>0 .. current - 1\<close> in index order.\<close>

definition elements :: "'a heap \<Rightarrow> vectorClass \<Rightarrow> 'a list" where
  "elements h this =
     (case block_at h (arr this) of
        None \<Rightarrow> []
      | Some b \<Rightarrow> map the (take (nat (current this)) b))"

text \<open>
  The state that \<open>push\<close> is proved to return from a well-formed state whose buffer is
  the block \<open>b\<close>.
\<close>

definition pushed :: "'a heap \<Rightarrow> vectorClass \<Rightarrow> 'a block \<Rightarrow> 'a \<Rightarrow> 'a heap \<times> vectorClass" where
  "pushed h this b v =
     (if capacity this = current this then
        ((h @ [Some ((b @ replicate (length b) None)[length b := Some v])])[arr this := None],
         this\<lparr>capacity := 2 * capacity this, arr := length h, current := current this + 1\<rparr>)
      else
        (h[arr this := Some (b[nat (current this) := Some v])],
         this\<lparr>current := current this + 1\<rparr>))"

text \<open>
  A sequence of calls in which \<open>pop\<close> is only ever called on a container that holds at
  least one element (\<open>getSize\<close> positive at the moment of the call).
\<close>

fun pop_only_nonempty :: "(int \<Rightarrow> 'a) \<Rightarrow> 'a state \<Rightarrow> 'a call list \<Rightarrow> bool" where
  "pop_only_nonempty fromInt s [] = True"
| "pop_only_nonempty fromInt s (c # cs) =
     ((case c of Pop data \<Rightarrow> 0 < getSize (snd s) | _ \<Rightarrow> True) \<and>
      (case step fromInt s c of
         Inl e \<Rightarrow> True
       | Inr (s', r) \<Rightarrow> pop_only_nonempty fromInt s' cs))"

text \<open>
  The capacity read with \<open>getCapacity\<close> right after construction and again after each
  \<open>push\<close> of the values \<open>vs\<close>, in order.
\<close>

definition observe_capacity :: "(int \<Rightarrow> 'a) \<Rightarrow> 'a list \<Rightarrow> error + int list" where
  "observe_capacity fromInt vs =
     (case session fromInt (GetCapacity # concat (map (\<lambda>v. [Push v, GetCapacity]) vs)) of
        Inl e \<Rightarrow> Inl e
      | Inr (s, rs) \<Rightarrow> Inr [n. ReturnedInt n \<leftarrow> rs])"

section \<open>Lemmas about the machine and the operations\<close>

lemma block_at_update:
  "block_at (h[p := x]) q = (if q < length h then (if q = p then x else h ! q) else None)"
  by (simp add: block_at_def)

lemma block_at_SomeD: "block_at h p = Some b \<Longrightarrow> p < length h \<and> h ! p = Some b"
  by (simp add: block_at_def split: if_splits)

lemma copy_loop_nth:
  assumes "block_at h src = Some sb" and "block_at h dst = Some db" and "src \<noteq> dst"
    and "0 \<le> i" and "cap \<le> int (length sb)" and "cap \<le> int (length db)"
    and "\<forall>j. nat i \<le> j \<and> j < nat cap \<longrightarrow> sb ! j \<noteq> None"
  shows "\<exists>db'. copy_loop h src dst i cap = Inr (h[dst := Some db'])
           \<and> length db' = length db
           \<and> (\<forall>j < length db. db' ! j = (if nat i \<le> j \<and> j < nat cap then sb ! j else db ! j))"
  using assms
proof (induction h src dst i cap arbitrary: db rule: copy_loop.induct)
  case (1 h src dst i cap)
  show ?case
  proof (cases "i < cap")
    case False
    have "h[dst := Some db] = h"
      using "1.prems"(2) by (simp add: block_at_def list_update_same_conv split: if_splits)
    have "copy_loop h src dst i cap = Inr (h[dst := Some db])"
      using False \<open>h[dst := Some db] = h\<close> by (subst copy_loop.simps) simp
    moreover have "\<forall>j < length db. db ! j = (if nat i \<le> j \<and> j < nat cap then sb ! j else db ! j)"
      using False "1.prems"(4) by auto
    ultimately show ?thesis by blast
  next
    case True
    have "nat i < nat cap"
      using True "1.prems"(4) by linarith
    then have "sb ! nat i \<noteq> None"
      using "1.prems"(7) by simp
    then obtain v where v: "sb ! nat i = Some v"
      by auto
    have ld: "load h src i = Inr v"
      using "1.prems" True v by (simp add: load_def)
    let ?db = "db[nat i := Some v]"
    let ?h = "h[dst := Some ?db]"
    have st: "store h dst i v = Inr ?h"
      using "1.prems" True by (simp add: store_def)
    have dstlt: "dst < length h" using "1.prems"(2) by (simp add: block_at_def split: if_splits)
    have b1: "block_at ?h src = Some sb"
      using "1.prems"(1,3) by (simp add: block_at_def split: if_splits)
    have b2: "block_at ?h dst = Some ?db"
      using dstlt by (simp add: block_at_def)
    have "\<exists>db'. copy_loop ?h src dst (i + 1) cap = Inr (?h[dst := Some db'])
           \<and> length db' = length ?db
           \<and> (\<forall>j < length ?db. db' ! j = (if nat (i + 1) \<le> j \<and> j < nat cap then sb ! j else ?db ! j))"
    proof (rule "1.IH"[OF True ld st b1 b2 "1.prems"(3) _ "1.prems"(5)])
      show "0 \<le> i + 1" using "1.prems"(4) by simp
      show "cap \<le> int (length ?db)" using "1.prems"(6) by simp
      show "\<forall>j. nat (i + 1) \<le> j \<and> j < nat cap \<longrightarrow> sb ! j \<noteq> None"
        using "1.prems"(4,7) by (simp add: nat_add_distrib)
    qed
    then obtain db' where r: "copy_loop ?h src dst (i + 1) cap = Inr (?h[dst := Some db'])"
      and len: "length db' = length ?db"
      and nth: "\<forall>j < length ?db. db' ! j = (if nat (i + 1) \<le> j \<and> j < nat cap then sb ! j else ?db ! j)"
      by auto
    have r': "copy_loop ?h src dst (i + 1) cap = Inr (h[dst := Some db'])"
      using r by simp
    have len: "length db' = length db"
      using len by simp
    have "copy_loop h src dst i cap = Inr (h[dst := Some db'])"
      using True ld st r' by (subst copy_loop.simps) simp
    moreover have "\<forall>j < length db. db' ! j = (if nat i \<le> j \<and> j < nat cap then sb ! j else db ! j)"
    proof (intro allI impI)
      fix j assume j: "j < length db"
      show "db' ! j = (if nat i \<le> j \<and> j < nat cap then sb ! j else db ! j)"
      proof (cases "j = nat i")
        case True
        then show ?thesis using nth j v \<open>i < cap\<close> "1.prems"(4) by (auto simp: nat_add_distrib)
      next
        case False
        then show ?thesis using nth j "1.prems"(4) by (auto simp: nat_add_distrib)
      qed
    qed
    ultimately show ?thesis using len by blast
  qed
qed

lemma block_at_append:
  "block_at (h @ [x]) p = (if p < length h then h ! p else if p = length h then x else None)"
  by (simp add: block_at_def nth_append)

lemma checked_ok: "INT_MIN \<le> x \<Longrightarrow> x \<le> INT_MAX \<Longrightarrow> checked x = Inr x"
  by (simp add: checked_def)

lemma INT_MIN_neg: "INT_MIN < 0"
  by (simp add: INT_MIN_def)

lemma grow_full:
  assumes b: "block_at h (arr this) = Some b"
    and len: "int (length b) = capacity this"
    and fits: "2 * capacity this \<le> INT_MAX"
    and init: "\<forall>j < length b. b ! j \<noteq> None"
  shows "grow h this =
           Inr ((h @ [Some (b @ replicate (length b) None)])[arr this := None],
                this\<lparr>capacity := 2 * capacity this, arr := length h\<rparr>)"
proof -
  let ?cap = "capacity this"
  let ?h1 = "h @ [Some (replicate (nat (2 * ?cap)) None)]"
  have cap0: "0 \<le> ?cap" using len by linarith
  have plt: "arr this < length h" and hp: "h ! arr this = Some b"
    using block_at_SomeD[OF b] by simp_all
  have c1: "checked (2 * ?cap) = Inr (2 * ?cap)"
    using cap0 fits INT_MIN_neg by (intro checked_ok) linarith+
  have c2: "checked (?cap * 2) = Inr (2 * ?cap)"
    using c1 by (simp add: mult.commute)
  have na: "new_array h (2 * ?cap) = Inr (?h1, length h)"
    using cap0 by (simp add: new_array_def)
  have s1: "block_at ?h1 (arr this) = Some b"
    using plt hp by (simp add: block_at_append)
  have d1: "block_at ?h1 (length h) = Some (replicate (nat (2 * ?cap)) None)"
    by (simp add: block_at_append)
  have ne: "arr this \<noteq> length h" using plt by simp
  obtain db' where cl: "copy_loop ?h1 (arr this) (length h) 0 ?cap = Inr (?h1[length h := Some db'])"
    and l': "length db' = length (replicate (nat (2 * ?cap)) (None :: 'a option))"
    and n': "\<forall>j < length (replicate (nat (2 * ?cap)) (None :: 'a option)).
               db' ! j = (if nat 0 \<le> j \<and> j < nat ?cap then b ! j
                          else replicate (nat (2 * ?cap)) None ! j)"
    using copy_loop_nth[OF s1 d1 ne, of 0 ?cap] len init by auto
  have natcap: "nat ?cap = length b" using len by linarith
  have nat2: "nat (2 * ?cap) = 2 * length b" using len by linarith
  have "db' = b @ replicate (length b) None"
  proof (rule nth_equalityI)
    show "length db' = length (b @ replicate (length b) None)"
      using l' nat2 by simp
    fix j assume "j < length db'"
    then have j: "j < 2 * length b" using l' nat2 by simp
    then show "db' ! j = (b @ replicate (length b) None) ! j"
      using n' nat2 natcap by (simp add: nth_append)
  qed
  then have cl': "copy_loop ?h1 (arr this) (length h) 0 ?cap
                    = Inr (h @ [Some (b @ replicate (length b) None)])"
    using cl by simp
  have s2: "block_at (h @ [Some (b @ replicate (length b) None)]) (arr this) = Some b"
    using plt hp by (simp add: block_at_append)
  have del: "delete_array (h @ [Some (b @ replicate (length b) None)]) (arr this)
               = Inr ((h @ [Some (b @ replicate (length b) None)])[arr this := None])"
    using s2 by (simp add: delete_array_def)
  show ?thesis
    unfolding grow_def by (simp add: c1 na cl' del c2)
qed

lemma buffer_okD:
  assumes "buffer_ok h this"
  obtains b where "block_at h (arr this) = Some b" and "int (length b) = capacity this"
    and "1 \<le> capacity this" and "capacity this \<le> INT_MAX" and "INT_MIN \<le> current this"
    and "current this \<le> capacity this"
    and "\<forall>j < nat (current this). b ! j \<noteq> None"
proof -
  from assms obtain b where b: "block_at h (arr this) = Some b"
    by (auto simp: buffer_ok_def split: option.splits)
  with assms have *: "int (length b) = capacity this" "1 \<le> capacity this"
    "capacity this \<le> INT_MAX" "INT_MIN \<le> current this" "current this \<le> capacity this"
    "list_all (\<lambda>x. x \<noteq> None) (take (nat (current this)) b)"
    by (simp_all add: buffer_ok_def)
  have "\<forall>j < nat (current this). b ! j \<noteq> None"
  proof (intro allI impI)
    fix j assume j: "j < nat (current this)"
    then have "j < length (take (nat (current this)) b)" using *(1,5) by simp
    then have "take (nat (current this)) b ! j \<noteq> None"
      using *(6) by (simp add: list_all_length)
    then show "b ! j \<noteq> None" using j by simp
  qed
  with b *(1-5) show thesis by (rule that)
qed

lemma buffer_okI:
  assumes "block_at h (arr this) = Some b" and "int (length b) = capacity this"
    and "1 \<le> capacity this" and "capacity this \<le> INT_MAX" and "INT_MIN \<le> current this"
    and "current this \<le> capacity this"
    and "\<forall>j < nat (current this). b ! j \<noteq> None"
  shows "buffer_ok h this"
  using assms by (simp add: buffer_ok_def list_all_length)

lemma put_last_ok:
  assumes b: "block_at h (arr this) = Some b"
    and lo: "0 \<le> current this" and hi: "current this < int (length b)"
    and mx: "current this < INT_MAX"
  shows "put_last h this v =
           Inr (h[arr this := Some (b[nat (current this) := Some v])],
                this\<lparr>current := current this + 1\<rparr>)"
proof -
  have "store h (arr this) (current this) v
          = Inr (h[arr this := Some (b[nat (current this) := Some v])])"
    using b lo hi by (simp add: store_def)
  moreover have "checked (current this + 1) = Inr (current this + 1)"
    using lo mx INT_MIN_neg by (intro checked_ok) linarith+
  ultimately show ?thesis by (simp add: put_last_def)
qed

lemma push_pushed:
  assumes wf: "well_formed h this"
    and b: "block_at h (arr this) = Some b"
    and room: "current this < capacity this \<or> 2 * capacity this \<le> INT_MAX"
  shows "push h this v = Inr (pushed h this b v)"
proof -
  from wf have ok: "buffer_ok h this" and lo: "0 \<le> current this"
    by (simp_all add: well_formed_def)
  from ok b have len: "int (length b) = capacity this" and c1: "1 \<le> capacity this"
    and cmax: "capacity this \<le> INT_MAX" and le: "current this \<le> capacity this"
    and init: "\<forall>j < nat (current this). b ! j \<noteq> None"
    by (auto elim!: buffer_okD)
  show ?thesis
  proof (cases "capacity this = current this")
    case False
    then have lt: "current this < capacity this" using le by simp
    have "put_last h this v =
           Inr (h[arr this := Some (b[nat (current this) := Some v])],
                this\<lparr>current := current this + 1\<rparr>)"
      using b lo lt len cmax by (intro put_last_ok) simp_all
    with False show ?thesis by (simp add: push_def pushed_def)
  next
    case True
    with room have fits: "2 * capacity this \<le> INT_MAX" by simp
    have natc: "nat (current this) = length b" using True len by linarith
    let ?B = "b @ replicate (length b) None"
    let ?h' = "(h @ [Some ?B])[arr this := None]"
    let ?t' = "this\<lparr>capacity := 2 * capacity this, arr := length h\<rparr>"
    have g: "grow h this = Inr (?h', ?t')"
      using init natc by (intro grow_full[OF b len fits]) simp
    have plt: "arr this < length h" using block_at_SomeD[OF b] by simp
    have nb: "block_at ?h' (arr ?t') = Some ?B"
      using plt by (simp add: block_at_def nth_append)
    have pl: "put_last ?h' ?t' v =
           Inr (?h'[arr ?t' := Some (?B[nat (current ?t') := Some v])],
                ?t'\<lparr>current := current ?t' + 1\<rparr>)"
      using nb lo len c1 fits True by (intro put_last_ok) simp_all
    have "?h'[arr ?t' := Some (?B[nat (current ?t') := Some v])]
            = (h @ [Some (?B[length b := Some v])])[arr this := None]"
      using plt natc by (simp add: list_update_swap list_update_append)
    with pl g True show ?thesis
      by (simp add: push_def pushed_def)
  qed
qed

lemma push_needs_room:
  assumes "capacity this = current this" and "\<not> 2 * capacity this \<le> INT_MAX"
  shows "push h this v = Inl SignedOverflow"
  using assms by (simp add: push_def grow_def checked_def)

lemma push_negative:
  assumes "buffer_ok h this" and "current this < 0"
  shows "push h this v = Inl OutOfBounds"
proof -
  from assms(1) obtain b where "block_at h (arr this) = Some b" and "1 \<le> capacity this"
    by (auto elim!: buffer_okD)
  with assms(2) show ?thesis
    by (simp add: push_def put_last_def store_def)
qed

lemma push_Inr_pushed:
  assumes ok: "buffer_ok h this" and r: "push h this v = Inr s'"
  obtains b where "block_at h (arr this) = Some b" and "well_formed h this"
    and "current this < capacity this \<or> 2 * capacity this \<le> INT_MAX"
    and "s' = pushed h this b v"
proof -
  from ok obtain b where b: "block_at h (arr this) = Some b" and le: "current this \<le> capacity this"
    by (auto elim!: buffer_okD)
  have lo: "0 \<le> current this"
    using push_negative[OF ok, of v] r by (cases "current this < 0") simp_all
  then have wf: "well_formed h this" using ok by (simp add: well_formed_def)
  have room: "current this < capacity this \<or> 2 * capacity this \<le> INT_MAX"
  proof (rule ccontr)
    assume "\<not> ?thesis"
    with le have "capacity this = current this" "\<not> 2 * capacity this \<le> INT_MAX" by auto
    from push_needs_room[OF this, of h v] r show False by simp
  qed
  from push_pushed[OF wf b room, of v] r have "s' = pushed h this b v" by simp
  with b wf room show thesis by (rule that)
qed

lemma pushed_well_formed:
  assumes wf: "well_formed h this" and b: "block_at h (arr this) = Some b"
    and room: "current this < capacity this \<or> 2 * capacity this \<le> INT_MAX"
  shows "well_formed (fst (pushed h this b v)) (snd (pushed h this b v))"
proof -
  from wf have ok: "buffer_ok h this" and lo: "0 \<le> current this"
    by (simp_all add: well_formed_def)
  from ok b have len: "int (length b) = capacity this" and c1: "1 \<le> capacity this"
    and cmax: "capacity this \<le> INT_MAX" and le: "current this \<le> capacity this"
    and init: "\<forall>j < nat (current this). b ! j \<noteq> None"
    by (auto elim!: buffer_okD)
  have plt: "arr this < length h" using block_at_SomeD[OF b] by simp
  have mn: "INT_MIN \<le> current this + 1" using lo INT_MIN_neg by linarith
  show ?thesis
  proof (cases "capacity this = current this")
    case False
    then have lt: "current this < capacity this" using le by simp
    let ?b' = "b[nat (current this) := Some v]"
    have "buffer_ok (h[arr this := Some ?b']) (this\<lparr>current := current this + 1\<rparr>)"
    proof (rule buffer_okI[where b = ?b'])
      show "block_at (h[arr this := Some ?b']) (arr (this\<lparr>current := current this + 1\<rparr>)) = Some ?b'"
        using plt by (simp add: block_at_def)
      show "\<forall>j<nat (current (this\<lparr>current := current this + 1\<rparr>)). ?b' ! j \<noteq> None"
        using init lo lt len by (auto simp: nth_list_update nat_add_distrib less_Suc_eq)
    qed (use len c1 cmax lt mn in simp_all)
    with False lo show ?thesis by (simp add: pushed_def well_formed_def)
  next
    case True
    with room have fits: "2 * capacity this \<le> INT_MAX" by simp
    have natc: "nat (current this) = length b" using True len by linarith
    let ?b' = "(b @ replicate (length b) None)[length b := Some v]"
    let ?h' = "(h @ [Some ?b'])[arr this := None]"
    let ?t' = "this\<lparr>capacity := 2 * capacity this, arr := length h, current := current this + 1\<rparr>"
    have "buffer_ok ?h' ?t'"
    proof (rule buffer_okI[where b = ?b'])
      show "block_at ?h' (arr ?t') = Some ?b'"
        using plt by (simp add: block_at_def nth_append)
      show "int (length ?b') = capacity ?t'" using len by simp
      show "\<forall>j<nat (current ?t'). ?b' ! j \<noteq> None"
      proof (intro allI impI)
        fix j assume "j < nat (current ?t')"
        then have j: "j \<le> length b" using natc lo by (simp add: nat_add_distrib)
        have "0 < length b" using len c1 by linarith
        then have pos: "length b < length (b @ replicate (length b) None)" by simp
        show "?b' ! j \<noteq> None"
        proof (cases "j = length b")
          case True
          then show ?thesis using pos by simp
        next
          case False
          with j have "j < length b" by simp
          then show ?thesis using init natc by (simp add: nth_append)
        qed
      qed
    qed (use c1 fits True mn in simp_all)
    with True lo show ?thesis by (simp add: pushed_def well_formed_def)
  qed
qed

lemma pushed_capacity:
  "capacity (snd (pushed h this b v)) =
     (if capacity this = current this then 2 * capacity this else capacity this)"
  by (simp add: pushed_def)

lemma pushed_current: "current (snd (pushed h this b v)) = current this + 1"
  by (simp add: pushed_def)

lemma pop_Inr:
  "pop this v = Inr this' \<longleftrightarrow>
     INT_MIN < current this \<and> current this - 1 \<le> INT_MAX \<and> this' = this\<lparr>current := current this - 1\<rparr>"
  by (auto simp: pop_def checked_def)

lemma pop_buffer_ok:
  assumes "buffer_ok h this" and "pop this v = Inr this'"
  shows "buffer_ok h this'"
proof -
  from assms(2) have t: "this' = this\<lparr>current := current this - 1\<rparr>" and m: "INT_MIN < current this"
    by (simp_all add: pop_Inr)
  from assms(1) obtain b where b: "block_at h (arr this) = Some b"
    and *: "int (length b) = capacity this" "1 \<le> capacity this" "capacity this \<le> INT_MAX"
    "current this \<le> capacity this" "\<forall>j < nat (current this). b ! j \<noteq> None"
    by (auto elim!: buffer_okD)
  show ?thesis
    unfolding t
    by (rule buffer_okI[where b = b]) (use b * m in auto)
qed

lemma push_at_push: "capacity this \<noteq> 0 \<Longrightarrow> push_at h this v i = push h this v"
  by (simp add: push_at_def)

lemma buffer_ok_capacity: "buffer_ok h this \<Longrightarrow> capacity this \<noteq> 0"
  by (auto elim!: buffer_okD)

lemma step_buffer_ok:
  assumes ok: "buffer_ok h this" and st: "step fromInt (h, this) c = Inr ((h', this'), r)"
  shows "buffer_ok h' this'"
proof (cases c)
  case (Push v)
  with st have "push h this v = Inr (h', this')" by (simp split: sum.splits)
  from push_Inr_pushed[OF ok this] pushed_well_formed show ?thesis
    by (metis fst_conv snd_conv well_formed_def)
next
  case (PushAt v i)
  with st have "push h this v = Inr (h', this')"
    using buffer_ok_capacity[OF ok] by (simp add: push_at_push split: sum.splits)
  from push_Inr_pushed[OF ok this] pushed_well_formed show ?thesis
    by (metis fst_conv snd_conv well_formed_def)
next
  case (Pop v)
  with st have "pop this v = Inr this'" and "h' = h" by (auto split: sum.splits)
  with ok show ?thesis by (simp add: pop_buffer_ok)
qed (use st ok in \<open>auto split: sum.splits\<close>)

lemma pushed_same_block:
  assumes b: "block_at h (arr this) = Some b" and len: "int (length b) = capacity this"
    and lo: "0 \<le> current this" and lt: "current this < capacity this"
  shows "pushed h this b v =
           (h[arr this := Some (b[nat (current this) := Some v])], this\<lparr>current := current this + 1\<rparr>)"
    and "block_at (fst (pushed h this b v)) (arr (snd (pushed h this b v)))
           = Some (b[nat (current this) := Some v])"
    and "arr (snd (pushed h this b v)) = arr this"
    and "\<forall>p. p \<noteq> arr this \<longrightarrow> block_at (fst (pushed h this b v)) p = block_at h p"
  using assms block_at_SomeD[OF b] by (auto simp: pushed_def block_at_def)

lemma pushed_new_block:
  assumes b: "block_at h (arr this) = Some b" and len: "int (length b) = capacity this"
    and full: "capacity this = current this"
  shows "pushed h this b v =
           ((h @ [Some ((b @ replicate (length b) None)[length b := Some v])])[arr this := None],
            this\<lparr>capacity := 2 * capacity this, arr := length h, current := current this + 1\<rparr>)"
    and "block_at (fst (pushed h this b v)) (arr (snd (pushed h this b v)))
           = Some ((b @ replicate (length b) None)[length b := Some v])"
    and "arr (snd (pushed h this b v)) = length h"
    and "block_at (fst (pushed h this b v)) (arr this) = None"
    and "\<forall>p. p \<noteq> arr this \<longrightarrow> p < length h \<longrightarrow> block_at (fst (pushed h this b v)) p = block_at h p"
  using assms block_at_SomeD[OF b] by (auto simp: pushed_def block_at_def nth_append)

lemma load_block:
  assumes "block_at h p = Some b" and "0 \<le> i" and "i < int (length b)"
  shows "load h p i = (case b ! nat i of None \<Rightarrow> Inl UninitialisedRead | Some v \<Rightarrow> Inr v)"
  using assms by (simp add: load_def)

lemma pushed_content:
  assumes wf: "well_formed h this" and b: "block_at h (arr this) = Some b"
  obtains b' where "block_at (fst (pushed h this b v)) (arr (snd (pushed h this b v))) = Some b'"
    and "int (length b') = capacity (snd (pushed h this b v))"
    and "current this < int (length b')"
    and "take (Suc (nat (current this))) b' = take (nat (current this)) b @ [Some v]"
proof -
  from wf have ok: "buffer_ok h this" and lo: "0 \<le> current this"
    by (simp_all add: well_formed_def)
  from ok b have len: "int (length b) = capacity this" and c1: "1 \<le> capacity this"
    and le: "current this \<le> capacity this"
    by (auto elim!: buffer_okD)
  show thesis
  proof (cases "capacity this = current this")
    case False
    then have lt: "current this < capacity this" using le by simp
    let ?b' = "b[nat (current this) := Some v]"
    have n: "nat (current this) < length b" using lo lt len by linarith
    show thesis
    proof (rule that[of ?b'])
      show "block_at (fst (pushed h this b v)) (arr (snd (pushed h this b v))) = Some ?b'"
        by (rule pushed_same_block(2)[OF b len lo lt])
      show "int (length ?b') = capacity (snd (pushed h this b v))"
        using False len by (simp add: pushed_def)
      show "current this < int (length ?b')" using lt len by simp
      show "take (Suc (nat (current this))) ?b' = take (nat (current this)) b @ [Some v]"
        using n by (simp add: take_Suc_conv_app_nth)
    qed
  next
    case True
    let ?b' = "(b @ replicate (length b) None)[length b := Some v]"
    have natc: "nat (current this) = length b" using True len by linarith
    have pos: "0 < length b" using len c1 by linarith
    show thesis
    proof (rule that[of ?b'])
      show "block_at (fst (pushed h this b v)) (arr (snd (pushed h this b v))) = Some ?b'"
        by (rule pushed_new_block(2)[OF b len True])
      show "int (length ?b') = capacity (snd (pushed h this b v))"
        using True len by (simp add: pushed_def)
      show "current this < int (length ?b')" using True len c1 by simp
      show "take (Suc (nat (current this))) ?b' = take (nat (current this)) b @ [Some v]"
        using pos by (simp add: natc take_Suc_conv_app_nth list_update_append)
    qed
  qed
qed

lemma construct_empty:
  "construct [] = Inr ([Some [None]], \<lparr>arr = 0, capacity = 1, current = 0\<rparr>)"
  by (simp add: construct_def new_array_def)

lemma construct_well_formed:
  "well_formed [Some [None]] \<lparr>arr = 0, capacity = 1, current = 0\<rparr>"
  by (simp add: well_formed_def buffer_ok_def block_at_def INT_MAX_def INT_MIN_def)

lemma session_run:
  "session fromInt cs = run fromInt ([Some [None]], \<lparr>arr = 0, capacity = 1, current = 0\<rparr>) cs"
  by (simp add: session_def construct_empty)

lemma run_buffer_ok:
  assumes "buffer_ok (fst s) (snd s)" and "run fromInt s cs = Inr (s', rs)"
  shows "buffer_ok (fst s') (snd s')"
  using assms
proof (induction cs arbitrary: s rs)
  case Nil
  then show ?case by simp
next
  case (Cons c cs)
  from Cons.prems(2) obtain s1 r rs1 where st: "step fromInt s c = Inr (s1, r)"
    and rn: "run fromInt s1 cs = Inr (s', rs1)"
    by (auto split: sum.splits)
  have "buffer_ok (fst s1) (snd s1)"
    using step_buffer_ok[of "fst s" "snd s" fromInt c "fst s1" "snd s1" r] Cons.prems(1) st
    by simp
  from Cons.IH[OF this rn] show ?case .
qed

lemma session_buffer_ok:
  assumes "session fromInt cs = Inr ((h, this), rs)"
  shows "buffer_ok h this"
  using run_buffer_ok[of "([Some [None]], \<lparr>arr = 0, capacity = 1, current = 0\<rparr>)" fromInt cs "(h, this)" rs]
    assms construct_well_formed
  by (simp add: session_run well_formed_def)

lemma run_append:
  "run fromInt s (cs @ ds) =
     (case run fromInt s cs of
        Inl e \<Rightarrow> Inl e
      | Inr (s', rs) \<Rightarrow>
          (case run fromInt s' ds of
             Inl e \<Rightarrow> Inl e
           | Inr (s'', rs') \<Rightarrow> Inr (s'', rs @ rs')))"
  by (induction cs arbitrary: s) (auto split: sum.splits)

lemma step_capacity:
  assumes ok: "buffer_ok h this" and st: "step fromInt (h, this) c = Inr ((h', this'), r)"
  shows "capacity this' = capacity this \<or>
         (capacity this' = 2 * capacity this \<and> capacity this = current this \<and>
          (\<exists>v. c = Push v \<or> (\<exists>i. c = PushAt v i)))"
proof (cases c)
  case (Push v)
  with st have "push h this v = Inr (h', this')" by (simp split: sum.splits)
  from push_Inr_pushed[OF ok this] obtain b where "(h', this') = pushed h this b v" by blast
  then have "this' = snd (pushed h this b v)" by (metis snd_conv)
  then show ?thesis using Push by (simp add: pushed_capacity)
next
  case (PushAt v i)
  with st have "push h this v = Inr (h', this')"
    using buffer_ok_capacity[OF ok] by (simp add: push_at_push split: sum.splits)
  from push_Inr_pushed[OF ok this] obtain b where "(h', this') = pushed h this b v" by blast
  then have "this' = snd (pushed h this b v)" by (metis snd_conv)
  then show ?thesis using PushAt by (simp add: pushed_capacity)
next
  case (Pop v)
  with st show ?thesis by (auto simp: pop_Inr split: sum.splits)
qed (use st in \<open>auto split: sum.splits\<close>)

lemma step_current:
  assumes ok: "buffer_ok h this" and st: "step fromInt (h, this) c = Inr ((h', this'), r)"
  shows "current this' =
           (case c of Push v \<Rightarrow> current this + 1 | PushAt v i \<Rightarrow> current this + 1
            | Pop v \<Rightarrow> current this - 1 | _ \<Rightarrow> current this)"
proof (cases c)
  case (Push v)
  with st have "push h this v = Inr (h', this')" by (simp split: sum.splits)
  from push_Inr_pushed[OF ok this] obtain b where "(h', this') = pushed h this b v" by blast
  then have "this' = snd (pushed h this b v)" by (metis snd_conv)
  then show ?thesis using Push by (simp add: pushed_current)
next
  case (PushAt v i)
  with st have "push h this v = Inr (h', this')"
    using buffer_ok_capacity[OF ok] by (simp add: push_at_push split: sum.splits)
  from push_Inr_pushed[OF ok this] obtain b where "(h', this') = pushed h this b v" by blast
  then have "this' = snd (pushed h this b v)" by (metis snd_conv)
  then show ?thesis using PushAt by (simp add: pushed_current)
next
  case (Pop v)
  with st show ?thesis by (auto simp: pop_Inr split: sum.splits)
qed (use st in \<open>auto split: sum.splits\<close>)

lemma run_power_of_two:
  assumes "buffer_ok (fst s) (snd s)" and "run fromInt s cs = Inr (s', rs)"
    and "\<exists>k::nat. capacity (snd s) = 2 ^ k"
  shows "\<exists>k::nat. capacity (snd s') = 2 ^ k"
  using assms
proof (induction cs arbitrary: s rs)
  case Nil
  then show ?case by simp
next
  case (Cons c cs)
  from Cons.prems(2) obtain s1 r rs1 where st: "step fromInt s c = Inr (s1, r)"
    and rn: "run fromInt s1 cs = Inr (s', rs1)"
    by (auto split: sum.splits)
  have st': "step fromInt (fst s, snd s) c = Inr ((fst s1, snd s1), r)"
    using st by simp
  have ok1: "buffer_ok (fst s1) (snd s1)"
    by (rule step_buffer_ok[OF Cons.prems(1) st'])
  from Cons.prems(3) obtain k :: nat where k: "capacity (snd s) = 2 ^ k" by blast
  from step_capacity[OF Cons.prems(1) st']
  have "capacity (snd s1) = 2 ^ k \<or> capacity (snd s1) = 2 ^ Suc k"
    using k by auto
  then have "\<exists>k::nat. capacity (snd s1) = 2 ^ k" by blast
  from Cons.IH[OF ok1 rn this] show ?case .
qed

lemma run_nonnegative:
  assumes "buffer_ok (fst s) (snd s)" and "run fromInt s cs = Inr (s', rs)"
    and "0 \<le> current (snd s)" and "pop_only_nonempty fromInt s cs"
  shows "0 \<le> current (snd s')"
  using assms
proof (induction cs arbitrary: s rs)
  case Nil
  then show ?case by simp
next
  case (Cons c cs)
  from Cons.prems(2) obtain s1 r rs1 where st: "step fromInt s c = Inr (s1, r)"
    and rn: "run fromInt s1 cs = Inr (s', rs1)"
    by (auto split: sum.splits)
  have st': "step fromInt (fst s, snd s) c = Inr ((fst s1, snd s1), r)"
    using st by simp
  have ok1: "buffer_ok (fst s1) (snd s1)"
    by (rule step_buffer_ok[OF Cons.prems(1) st'])
  have g: "pop_only_nonempty fromInt s1 cs"
    and p: "case c of Pop data \<Rightarrow> 0 < getSize (snd s) | _ \<Rightarrow> True"
    using Cons.prems(4) st by simp_all
  have "0 \<le> current (snd s1)"
    using step_current[OF Cons.prems(1) st'] Cons.prems(3) p
    by (cases c) (simp_all add: getSize_def)
  from Cons.IH[OF ok1 rn this g] show ?case .
qed

text \<open>The equations that evaluate a concrete sequence of calls.\<close>

lemmas exec_simps =
  session_def construct_def new_array_def push_def push_at_def grow_def put_last_def pop_def
  checked_def INT_MAX_def INT_MIN_def store_def load_def delete_array_def block_at_def
  copy_loop.simps print_loop.simps print_def get_def getSize_def getCapacity_def

lemma nth_elements:
  assumes "block_at h (arr this) = Some b" and "0 \<le> i" and "i < current this"
    and "current this \<le> int (length b)"
  shows "elements h this ! nat i = the (b ! nat i)"
proof -
  have "nat i < nat (current this)" using assms(2,3) by linarith
  moreover have "nat (current this) \<le> length b" using assms(4) by linarith
  ultimately show ?thesis using assms(1) by (simp add: elements_def)
qed

lemma get_Inr:
  assumes ok: "buffer_ok h this" and idx: "0 \<le> index \<or> current this \<le> index"
  shows "get fromInt h this index =
           Inr (if index < current this
                then [Text ''At index '', Number index, Text '' : '',
                      Value (elements h this ! nat index), Endl]
                else [], fromInt (- 1))"
proof (cases "index < current this")
  case False
  then show ?thesis by (simp add: get_def)
next
  case True
  with idx have i0: "0 \<le> index" by linarith
  from ok obtain b where b: "block_at h (arr this) = Some b"
    and len: "int (length b) = capacity this" and le: "current this \<le> capacity this"
    and init: "\<forall>j < nat (current this). b ! j \<noteq> None"
    by (auto elim!: buffer_okD)
  have "nat index < nat (current this)" using i0 True by linarith
  with init have "b ! nat index \<noteq> None" by blast
  then obtain v where v: "b ! nat index = Some v" by auto
  have lt: "index < int (length b)" using True le len by linarith
  have "load h (arr this) index = Inr v"
    using load_block[OF b i0 lt] v by simp
  moreover have "elements h this ! nat index = v"
    using nth_elements[OF b i0 True] le len v by simp
  ultimately show ?thesis using True by (simp add: get_def)
qed

lemma push_effect:
  assumes wf: "well_formed h this"
    and room: "current this < capacity this \<or> 2 * capacity this \<le> INT_MAX"
  shows "\<exists>h' this'.
           push h this v = Inr (h', this') \<and>
           getSize this' = getSize this + 1 \<and>
           load h' (arr this') (getSize this) = Inr v \<and>
           (\<forall>i. 0 \<le> i \<and> i < getSize this \<longrightarrow> load h' (arr this') i = load h (arr this) i) \<and>
           elements h' this' = elements h this @ [v] \<and>
           well_formed h' this' \<and>
           (if capacity this = current this
            then getCapacity this' = 2 * getCapacity this \<and> arr this' = length h \<and>
                 block_at h' (arr this) = None \<and>
                 map_option length (block_at h' (arr this')) = Some (nat (2 * capacity this))
            else getCapacity this' = getCapacity this \<and> arr this' = arr this) \<and>
           (\<forall>p. p \<noteq> arr this \<and> p < length h \<longrightarrow> block_at h' p = block_at h p)"
proof -
  from wf have ok: "buffer_ok h this" and lo: "0 \<le> current this"
    by (simp_all add: well_formed_def)
  from ok obtain b where b: "block_at h (arr this) = Some b"
    and len: "int (length b) = capacity this" and le: "current this \<le> capacity this"
    by (auto elim!: buffer_okD)
  let ?s = "pushed h this b v"
  let ?n = "nat (current this)"
  have p: "push h this v = Inr (fst ?s, snd ?s)"
    using push_pushed[OF wf b room] by simp
  obtain b' where b': "block_at (fst ?s) (arr (snd ?s)) = Some b'"
    and len': "int (length b') = capacity (snd ?s)"
    and lt': "current this < int (length b')"
    and tk: "take (Suc ?n) b' = take ?n b @ [Some v]"
    by (rule pushed_content[OF wf b])
  have nb: "?n \<le> length b" using le len by linarith
  have new: "b' ! ?n = Some v"
  proof -
    have "b' ! ?n = take (Suc ?n) b' ! ?n" by simp
    also have "\<dots> = Some v" using nb by (simp add: tk nth_append)
    finally show ?thesis .
  qed
  have old: "b' ! j = b ! j" if "j < ?n" for j
  proof -
    have "b' ! j = take (Suc ?n) b' ! j" using that by simp
    also have "\<dots> = take ?n b ! j" using that nb by (simp add: tk nth_append)
    also have "\<dots> = b ! j" using that by simp
    finally show ?thesis .
  qed
  have c1: "getSize (snd ?s) = getSize this + 1"
    by (simp add: getSize_def pushed_current)
  have c2: "load (fst ?s) (arr (snd ?s)) (getSize this) = Inr v"
    using load_block[OF b' lo lt'] new by (simp add: getSize_def)
  have c3: "\<forall>i. 0 \<le> i \<and> i < getSize this \<longrightarrow>
              load (fst ?s) (arr (snd ?s)) i = load h (arr this) i"
  proof (intro allI impI)
    fix i assume i: "0 \<le> i \<and> i < getSize this"
    then have i0: "0 \<le> i" and ic: "i < current this" by (simp_all add: getSize_def)
    have "nat i < ?n" using i0 ic by linarith
    then have "b' ! nat i = b ! nat i" by (rule old)
    moreover have "i < int (length b')" using ic lt' by linarith
    moreover have "i < int (length b)" using ic le len by linarith
    ultimately show "load (fst ?s) (arr (snd ?s)) i = load h (arr this) i"
      using load_block[OF b' i0] load_block[OF b i0] by simp
  qed
  have c4: "elements (fst ?s) (snd ?s) = elements h this @ [v]"
    using b b' lo tk by (simp add: elements_def pushed_current nat_add_distrib)
  have c5: "well_formed (fst ?s) (snd ?s)"
    by (rule pushed_well_formed[OF wf b room])
  have c6: "if capacity this = current this
            then getCapacity (snd ?s) = 2 * getCapacity this \<and> arr (snd ?s) = length h \<and>
                 block_at (fst ?s) (arr this) = None \<and>
                 map_option length (block_at (fst ?s) (arr (snd ?s))) = Some (nat (2 * capacity this))
            else getCapacity (snd ?s) = getCapacity this \<and> arr (snd ?s) = arr this"
  proof (cases "capacity this = current this")
    case True
    have "length b' = nat (2 * capacity this)"
      using len' True by (simp add: pushed_capacity)
    with True pushed_new_block(3,4)[OF b len True, of v] b' show ?thesis
      by (simp add: getCapacity_def pushed_capacity)
  next
    case False
    then have "current this < capacity this" using le by simp
    from pushed_same_block(3)[OF b len lo this, of v] False show ?thesis
      by (simp add: getCapacity_def pushed_capacity)
  qed
  have c7: "\<forall>p. p \<noteq> arr this \<and> p < length h \<longrightarrow> block_at (fst ?s) p = block_at h p"
  proof (cases "capacity this = current this")
    case True
    from pushed_new_block(5)[OF b len True, of v] show ?thesis by simp
  next
    case False
    then have "current this < capacity this" using le by simp
    from pushed_same_block(4)[OF b len lo this, of v] show ?thesis by simp
  qed
  from p c1 c2 c3 c4 c5 c6 c7 show ?thesis by blast
qed

lemma session_append:
  "session fromInt (cs @ ds) =
     (case session fromInt cs of
        Inl e \<Rightarrow> Inl e
      | Inr (s', rs) \<Rightarrow>
          (case run fromInt s' ds of
             Inl e \<Rightarrow> Inl e
           | Inr (s'', rs') \<Rightarrow> Inr (s'', rs @ rs')))"
  by (simp add: session_run run_append)

lemma pushes_state:
  assumes "length vs \<le> 2 ^ 30"
  shows "\<exists>h this rs. session fromInt (map Push vs) = Inr ((h, this), rs) \<and>
           well_formed h this \<and> current this = int (length vs) \<and>
           (capacity this = 1 \<or> capacity this < 2 * current this) \<and>
           (\<exists>k::nat. capacity this = 2 ^ k) \<and>
           elements h this = vs"
  using assms
proof (induction vs rule: rev_induct)
  case Nil
  have "session fromInt (map Push []) =
          Inr (([Some [None]], \<lparr>arr = 0, capacity = 1, current = 0\<rparr>), [])"
    by (simp add: session_run)
  moreover have "elements [Some [None :: 'a option]] \<lparr>arr = 0, capacity = 1, current = 0\<rparr> = []"
    by (simp add: elements_def block_at_def)
  moreover have "\<exists>k::nat. capacity \<lparr>arr = 0, capacity = 1, current = 0\<rparr> = 2 ^ k"
    by (rule exI[of _ 0]) simp
  ultimately show ?case using construct_well_formed[where ?'a = 'a] by auto
next
  case (snoc v vs)
  then have "length vs \<le> 2 ^ 30" and lt: "length vs < 2 ^ 30" by simp_all
  with snoc.IH obtain h this rs k where s: "session fromInt (map Push vs) = Inr ((h, this), rs)"
    and wf: "well_formed h this" and cur: "current this = int (length vs)"
    and tight: "capacity this = 1 \<or> capacity this < 2 * current this"
    and k: "capacity this = 2 ^ (k::nat)" and el: "elements h this = vs"
    by blast
  from wf have le: "current this \<le> capacity this"
    by (auto simp: well_formed_def elim!: buffer_okD)
  have "int (length vs) < 2 ^ 30" using lt by (metis of_nat_less_iff of_nat_numeral of_nat_power)
  then have room: "current this < capacity this \<or> 2 * capacity this \<le> INT_MAX"
    using cur le by (auto simp: INT_MAX_def)
  from push_effect[OF wf room, of v] obtain h' this' where
    p: "push h this v = Inr (h', this')" and sz: "getSize this' = getSize this + 1"
    and el': "elements h' this' = elements h this @ [v]" and wf': "well_formed h' this'"
    and cap: "if capacity this = current this then getCapacity this' = 2 * getCapacity this
              else getCapacity this' = getCapacity this"
    by (auto split: if_splits)
  have s': "session fromInt (map Push (vs @ [v])) = Inr ((h', this'), rs @ [Returned])"
    using s p by (simp add: session_append)
  have cur': "current this' = int (length (vs @ [v]))"
    using sz cur by (simp add: getSize_def)
  have tight': "capacity this' = 1 \<or> capacity this' < 2 * current this'"
    using cap tight le sz by (auto simp: getSize_def getCapacity_def split: if_splits)
  have pow': "\<exists>k::nat. capacity this' = 2 ^ k"
  proof (cases "capacity this = current this")
    case True
    then have "capacity this' = 2 ^ Suc k" using cap k by (simp add: getCapacity_def)
    then show ?thesis by blast
  next
    case False
    then have "capacity this' = 2 ^ k" using cap k by (simp add: getCapacity_def)
    then show ?thesis by blast
  qed
  have "elements h' this' = vs @ [v]" using el' el by simp
  with s' wf' cur' tight' pow' show ?case by blast
qed

lemma tight_power_least:
  fixes k j :: nat and n :: int
  assumes "(2::int) ^ k = 1 \<or> 2 ^ k < 2 * n" and "n \<le> 2 ^ j"
  shows "(2::int) ^ k \<le> 2 ^ j"
proof (cases "(2::int) ^ k = 1")
  case True
  then show ?thesis by simp
next
  case False
  with assms have "(2::int) ^ k < 2 ^ Suc j" by simp
  then have "k < Suc j" by (rule power_less_imp_less_exp[rotated]) simp
  then have "k \<le> j" by simp
  then show ?thesis by simp
qed

text \<open>
  The state after pushing the values \<open>vs\<close> on a fresh container, written out: the buffer
  is the \<open>k\<close>-th reallocation, the earlier buffers are freed, and the values sit in the
  first \<open>length vs\<close> slots in the order they were pushed.
\<close>

lemma pushes_explicit:
  assumes "length vs \<le> 2 ^ 30"
  shows "\<exists>k. session fromInt (map Push vs) =
             Inr ((replicate k None @ [Some (map Some vs @ replicate (2 ^ k - length vs) None)],
                   \<lparr>arr = k, capacity = 2 ^ k, current = int (length vs)\<rparr>),
                  replicate (length vs) Returned) \<and>
             length vs \<le> 2 ^ k"
  using assms
proof (induction vs rule: rev_induct)
  case Nil
  have "session fromInt (map Push []) =
          Inr ((replicate 0 None @ [Some (map Some [] @ replicate (2 ^ 0 - length []) None)],
                \<lparr>arr = 0, capacity = 2 ^ 0, current = int (length [])\<rparr>),
               replicate (length []) Returned)"
    by (simp add: session_run)
  then show ?case by (intro exI[of _ 0]) simp
next
  case (snoc v vs)
  let ?n = "length vs"
  from snoc.prems have n30: "?n \<le> 2 ^ 30" by simp
  from snoc.IH[OF n30] obtain k where
    s: "session fromInt (map Push vs) =
          Inr ((replicate k None @ [Some (map Some vs @ replicate (2 ^ k - ?n) None)],
                \<lparr>arr = k, capacity = 2 ^ k, current = int ?n\<rparr>),
               replicate ?n Returned)"
    and nk: "?n \<le> 2 ^ k"
    by blast
  let ?b = "map Some vs @ replicate (2 ^ k - ?n) None"
  let ?h = "replicate k None @ [Some ?b]"
  let ?t = "\<lparr>arr = k, capacity = 2 ^ k, current = int ?n\<rparr>"
  from pushes_state[OF n30, of fromInt] obtain h0 t0 rs0
    where s0: "session fromInt (map Push vs) = Inr ((h0, t0), rs0)" and wf0: "well_formed h0 t0"
    by blast
  from s0 s have "h0 = ?h" and "t0 = ?t" by simp_all
  with wf0 have wf: "well_formed ?h ?t" by simp
  have b: "block_at ?h (arr ?t) = Some ?b"
    by (simp add: block_at_def nth_append)
  have n31: "2 * int ?n < 2 ^ 31"
    using snoc.prems by simp
  have ik: "int ?n \<le> 2 ^ k"
    using nk by (metis of_nat_le_iff of_nat_numeral of_nat_power)
  have room: "current ?t < capacity ?t \<or> 2 * capacity ?t \<le> INT_MAX"
  proof (cases "int ?n = 2 ^ k")
    case True
    then have "2 * capacity ?t < 2 ^ 31" using n31 by simp
    then show ?thesis by (simp add: INT_MAX_def)
  next
    case False
    with ik show ?thesis by simp
  qed
  have p: "push ?h ?t v = Inr (pushed ?h ?t ?b v)"
    by (rule push_pushed[OF wf b room])
  have "\<exists>k'. pushed ?h ?t ?b v =
           (replicate k' None @ [Some (map Some (vs @ [v]) @ replicate (2 ^ k' - Suc ?n) None)],
            \<lparr>arr = k', capacity = 2 ^ k', current = int (Suc ?n)\<rparr>) \<and> Suc ?n \<le> 2 ^ k'"
  proof (cases "?n = 2 ^ k")
    case True
    then have full: "capacity ?t = current ?t" by simp
    have lb: "length ?b = ?n" using True by simp
    have n0: "0 < ?n" using True by simp
    have "(?b @ replicate (length ?b) None)[length ?b := Some v]
            = map Some (vs @ [v]) @ replicate (2 ^ Suc k - Suc ?n) None"
    proof -
      have "?b = map Some vs" using True by simp
      moreover have "(map Some vs @ replicate ?n None)[?n := Some v]
                       = map Some vs @ (replicate ?n None)[0 := Some v]"
        by (simp add: list_update_append)
      moreover have "(replicate ?n None)[0 := Some v] = Some v # replicate (?n - 1) None"
        using n0 by (cases ?n) simp_all
      moreover have "2 ^ Suc k - Suc ?n = ?n - 1" using True by simp
      ultimately show ?thesis using lb by simp
    qed
    moreover have "(?h @ [x])[k := None] = replicate (Suc k) None @ [x]" for x :: "'a block option"
      by (simp add: list_update_append replicate_append_same)
    ultimately have "pushed ?h ?t ?b v =
           (replicate (Suc k) None @ [Some (map Some (vs @ [v]) @ replicate (2 ^ Suc k - Suc ?n) None)],
            \<lparr>arr = Suc k, capacity = 2 ^ Suc k, current = int (Suc ?n)\<rparr>)"
      using full by (simp add: pushed_def)
    moreover have "Suc ?n \<le> 2 ^ Suc k" using True n0 by simp
    ultimately show ?thesis by blast
  next
    case False
    with nk have lt: "?n < 2 ^ k" by simp
    then have "int ?n < 2 ^ k"
      by (metis of_nat_less_iff of_nat_numeral of_nat_power)
    then have nfull: "capacity ?t \<noteq> current ?t"
      by simp
    have "?b[?n := Some v] = map Some (vs @ [v]) @ replicate (2 ^ k - Suc ?n) None"
    proof -
      have "0 < 2 ^ k - ?n" using lt by simp
      then have "(replicate (2 ^ k - ?n) None)[0 := Some v]
                   = Some v # replicate (2 ^ k - Suc ?n) (None :: 'a option)"
        by (cases "2 ^ k - ?n") simp_all
      then show ?thesis by (simp add: list_update_append)
    qed
    moreover have "?h[k := x] = replicate k None @ [x]" for x :: "'a block option"
      by (simp add: list_update_append)
    ultimately have "pushed ?h ?t ?b v =
           (replicate k None @ [Some (map Some (vs @ [v]) @ replicate (2 ^ k - Suc ?n) None)],
            \<lparr>arr = k, capacity = 2 ^ k, current = int (Suc ?n)\<rparr>)"
      using nfull by (simp add: pushed_def)
    moreover have "Suc ?n \<le> 2 ^ k" using lt by simp
    ultimately show ?thesis by blast
  qed
  then obtain k' where
    pk: "pushed ?h ?t ?b v =
           (replicate k' None @ [Some (map Some (vs @ [v]) @ replicate (2 ^ k' - Suc ?n) None)],
            \<lparr>arr = k', capacity = 2 ^ k', current = int (Suc ?n)\<rparr>)"
    and le': "Suc ?n \<le> 2 ^ k'"
    by blast
  have "session fromInt (map Push (vs @ [v])) =
          Inr (pushed ?h ?t ?b v, replicate ?n Returned @ [Returned])"
    using s p by (simp add: session_append)
  then have "session fromInt (map Push (vs @ [v])) =
          Inr ((replicate k' None @ [Some (map Some (vs @ [v]) @ replicate (2 ^ k' - length (vs @ [v])) None)],
                \<lparr>arr = k', capacity = 2 ^ k', current = int (length (vs @ [v]))\<rparr>),
               replicate (length (vs @ [v])) Returned)"
    using pk by (simp add: replicate_append_same)
  with le' show ?case by auto
qed


text \<open>
  After \<open>n = 2^30\<close> pushes the buffer is full at capacity \<open>2^30\<close>. The number is kept
  symbolic so that the list is never unfolded.
\<close>

lemma overflow_reached:
  assumes n: "n = 2 ^ 30"
  shows "session fromInt (map Push (replicate n v)) =
           Inr ((replicate 30 None @ [Some (map Some (replicate n v))],
                 \<lparr>arr = 30, capacity = 2 ^ 30, current = 2 ^ 30\<rparr>),
                replicate n Returned) \<and>
         well_formed (replicate 30 None @ [Some (map Some (replicate n v))])
           \<lparr>arr = 30, capacity = 2 ^ 30, current = 2 ^ 30\<rparr> \<and>
         push (replicate 30 None @ [Some (map Some (replicate n v))])
           \<lparr>arr = 30, capacity = 2 ^ 30, current = 2 ^ 30\<rparr> v = Inl SignedOverflow"
proof -
  let ?vs = "replicate n v"
  have len: "length ?vs \<le> 2 ^ 30" using n by simp
  from pushes_explicit[OF len, of fromInt] obtain k where
    s: "session fromInt (map Push ?vs) =
          Inr ((replicate k None @ [Some (map Some ?vs @ replicate (2 ^ k - n) None)],
                \<lparr>arr = k, capacity = 2 ^ k, current = int n\<rparr>),
               replicate n Returned)"
    and nk: "n \<le> 2 ^ k"
    by auto
  from pushes_state[OF len, of fromInt] obtain h0 t0 rs0
    where s0: "session fromInt (map Push ?vs) = Inr ((h0, t0), rs0)"
      and wf0: "well_formed h0 t0"
      and tight0: "capacity t0 = 1 \<or> capacity t0 < 2 * current t0"
    by blast
  from s0 s have h0: "h0 = replicate k None @ [Some (map Some ?vs @ replicate (2 ^ k - n) None)]"
    and t0: "t0 = \<lparr>arr = k, capacity = 2 ^ k, current = int n\<rparr>"
    by simp_all
  have "(2::nat) ^ 30 \<le> 2 ^ k" using nk n by simp
  then have "30 \<le> k" by (rule power_le_imp_le_exp[rotated]) simp
  have "(2::int) ^ k < 2 ^ 31"
  proof -
    have "(2::int) ^ 30 \<le> 2 ^ k" using \<open>30 \<le> k\<close> by (intro power_increasing) simp_all
    then have "(2::int) ^ k \<noteq> 1" by simp
    with tight0 t0 have "(2::int) ^ k < 2 * int n" by simp
    then show ?thesis using n by simp
  qed
  then have "k < 31" by (rule power_less_imp_less_exp[rotated]) simp
  with \<open>30 \<le> k\<close> have k: "k = 30" by simp
  have z: "2 ^ k - n = 0" using k n by simp
  have cur: "int n = 2 ^ 30" using n by simp
  have s': "session fromInt (map Push ?vs) =
           Inr ((replicate 30 None @ [Some (map Some ?vs)],
                 \<lparr>arr = 30, capacity = 2 ^ 30, current = 2 ^ 30\<rparr>),
                replicate n Returned)"
    using s unfolding z cur by (simp only: k replicate_0 append_Nil2)
  have wf: "well_formed (replicate 30 None @ [Some (map Some ?vs)])
              \<lparr>arr = 30, capacity = 2 ^ 30, current = 2 ^ 30\<rparr>"
    using wf0 unfolding h0 t0 z cur by (simp only: k replicate_0 append_Nil2)
  have "push (replicate 30 None @ [Some (map Some ?vs)])
          \<lparr>arr = 30, capacity = 2 ^ 30, current = 2 ^ 30\<rparr> v = Inl SignedOverflow"
    by (rule push_needs_room) (simp_all add: INT_MAX_def)
  with s' wf show ?thesis by blast
qed

text \<open>
  One \<open>push\<close> more than \<open>n = 2^30\<close>: the buffer is full at capacity \<open>2^30\<close> and the growth
  step overflows. The number is kept symbolic so that the list is never unfolded.
\<close>

lemma pushes_overflow:
  assumes n: "n = 2 ^ 30"
  shows "session fromInt (map Push (replicate n v @ [v])) = Inl SignedOverflow"
proof -
  have "length (replicate n v) \<le> 2 ^ 30" using n by simp
  from pushes_state[OF this, of fromInt] obtain h this rs k
    where s: "session fromInt (map Push (replicate n v)) = Inr ((h, this), rs)"
      and wf: "well_formed h this" and cur: "current this = int n"
      and tight: "capacity this = 1 \<or> capacity this < 2 * current this"
      and k: "capacity this = 2 ^ (k::nat)"
    by auto
  from wf have le: "current this \<le> capacity this"
    by (auto simp: well_formed_def elim!: buffer_okD)
  have cn: "current this = 2 ^ 30" using cur n by simp
  have lo: "(2::int) ^ 30 \<le> 2 ^ k" using le cn k by simp
  then have "30 \<le> k" by (rule power_le_imp_le_exp[rotated]) simp
  have "(2::int) ^ k < 2 ^ 31" using tight cn k lo by auto
  then have "k < 31" by (rule power_less_imp_less_exp[rotated]) simp
  with \<open>30 \<le> k\<close> have "k = 30" by simp
  then have full: "capacity this = current this" using k cn by simp
  have "\<not> 2 * capacity this \<le> INT_MAX" using full cn by (simp add: INT_MAX_def)
  from push_needs_room[OF full this] have "push h this v = Inl SignedOverflow" .
  with s show ?thesis by (simp add: session_append)
qed

section \<open>The claims\<close>

subsection \<open>C1: what \<open>push\<close> does\<close>

text \<open>
  Claim C1 says that for every container state and value \<open>v\<close> the append succeeds, makes
  the length one larger, stores \<open>v\<close> at the old length and leaves every earlier element
  as it was, also when it has to grow the buffer (new buffer of twice the capacity, live
  elements copied to the same indices, old buffer freed, new one adopted).

  As stated it fails on a full container of capacity \<open>2^30\<close>, which \<open>2^30\<close> appends
  produce: \<open>2 * capacity\<close> is then \<open>2^31\<close>, outside the range of \<open>int\<close>, and the call
  does not succeed.
\<close>

text \<open>
  C1 as amended: in every well-formed state in which the buffer has a free slot or twice
  the capacity is still an \<open>int\<close>, \<open>push\<close> returns; the length grows by one; slot
  "old length" holds \<open>v\<close>; every slot below it reads as before; the list of live
  elements is the old one followed by \<open>v\<close>; the new state is well-formed. When the buffer
  was full the capacity doubles, the buffer is a new allocation of that size and the old
  one is freed; otherwise capacity and buffer pointer are unchanged. No other allocation
  on the heap is touched.
\<close>

theorem push_appends:
  assumes wf: "well_formed h this"
    and room: "current this < capacity this \<or> 2 * capacity this \<le> INT_MAX"
  shows "\<exists>h' this'.
           push h this v = Inr (h', this') \<and>
           getSize this' = getSize this + 1 \<and>
           load h' (arr this') (getSize this) = Inr v \<and>
           (\<forall>i. 0 \<le> i \<and> i < getSize this \<longrightarrow> load h' (arr this') i = load h (arr this) i) \<and>
           elements h' this' = elements h this @ [v] \<and>
           well_formed h' this' \<and>
           (if capacity this = current this
            then getCapacity this' = 2 * getCapacity this \<and> arr this' = length h \<and>
                 block_at h' (arr this) = None \<and>
                 map_option length (block_at h' (arr this')) = Some (nat (2 * capacity this))
            else getCapacity this' = getCapacity this \<and> arr this' = arr this) \<and>
           (\<forall>p. p \<noteq> arr this \<and> p < length h \<longrightarrow> block_at h' p = block_at h p)"
  using wf room by (rule push_effect)

theorem push_appends_witness:
  "well_formed [Some [Some (55::int)]] \<lparr>arr = 0, capacity = 1, current = 1\<rparr> \<and>
   (\<exists>h' this'.
      push [Some [Some (55::int)]] \<lparr>arr = 0, capacity = 1, current = 1\<rparr> 50 = Inr (h', this') \<and>
      getSize this' = 2 \<and> getCapacity this' = 2 \<and>
      elements h' this' = [55, 50] \<and> block_at h' 0 = None)"
proof -
  let ?h = "[Some [Some (55::int)]]"
  let ?t = "\<lparr>arr = 0, capacity = 1, current = 1\<rparr>"
  have wf: "well_formed ?h ?t"
    by (simp add: well_formed_def buffer_ok_def block_at_def INT_MIN_def INT_MAX_def)
  have room: "current ?t < capacity ?t \<or> 2 * capacity ?t \<le> INT_MAX"
    by (simp add: INT_MAX_def)
  have el: "elements ?h ?t = [55]"
    by (simp add: elements_def block_at_def)
  from push_appends[OF wf room, of 50] wf el show ?thesis
    by (simp add: getSize_def getCapacity_def) blast
qed

text \<open>
  The counterexample to C1 as stated: \<open>2^30\<close> appends to a fresh container return and
  leave a well-formed container, full at capacity \<open>2^30\<close>; one more \<open>push\<close> on it
  does not succeed.
\<close>

theorem push_overflow_counterexample:
  "session (\<lambda>i. i) (map Push (replicate (2 ^ 30) (0::int))) =
     Inr ((replicate 30 None @ [Some (map Some (replicate (2 ^ 30) 0))],
           \<lparr>arr = 30, capacity = 2 ^ 30, current = 2 ^ 30\<rparr>),
          replicate (2 ^ 30) Returned) \<and>
   well_formed (replicate 30 None @ [Some (map Some (replicate (2 ^ 30) (0::int)))])
     \<lparr>arr = 30, capacity = 2 ^ 30, current = 2 ^ 30\<rparr> \<and>
   push (replicate 30 None @ [Some (map Some (replicate (2 ^ 30) (0::int)))])
     \<lparr>arr = 30, capacity = 2 ^ 30, current = 2 ^ 30\<rparr> 0 = Inl SignedOverflow"
  by (rule overflow_reached[OF refl])

subsection \<open>C2: what \<open>get\<close> returns\<close>

text \<open>
  Claim C2 says that \<open>get(index)\<close> returns the element at \<open>index\<close> when
  \<open>0 \<le> index < length\<close>, fails with OutOfRange otherwise, and leaves the container
  unchanged in both cases.

  The function ends in \<open>return -1\<close> on every path and has no failure path: for a valid
  index it prints the element and returns \<open>-1\<close>, for an index at or beyond the length it
  prints nothing and returns \<open>-1\<close>. Below, \<open>get(2)\<close> on the container 55, 50, 510 returns
  \<open>-1\<close>, not 510, and \<open>get(10)\<close> returns \<open>-1\<close> instead of failing.
\<close>

text \<open>
  C2 as amended: in every well-formed state and for every index that is not negative,
  \<open>get(index)\<close> returns normally and leaves the container and the heap unchanged; when
  \<open>index < length\<close> it prints the element stored at that index (and returns \<open>-1\<close>
  converted to the element type, not the element); when \<open>index \<ge> length\<close> it prints
  nothing and reports no error. Nothing is said about a negative index.
\<close>

theorem get_prints_element:
  assumes "well_formed h this" and "0 \<le> index"
  shows "\<exists>out. get fromInt h this index = Inr (out, fromInt (- 1)) \<and>
           step fromInt (h, this) (Get index) = Inr ((h, this), Got out (fromInt (- 1))) \<and>
           out = (if index < getSize this
                  then [Text ''At index '', Number index, Text '' : '',
                        Value (elements h this ! nat index), Endl]
                  else [])"
proof -
  from assms(1) have ok: "buffer_ok h this" by (simp add: well_formed_def)
  from get_Inr[OF ok, of index fromInt] assms(2) show ?thesis
    by (simp add: getSize_def)
qed

theorem get_prints_element_witness:
  "well_formed [None, None, Some [Some 55, Some 50, Some (510::int), None]]
     \<lparr>arr = 2, capacity = 4, current = 3\<rparr> \<and>
   get (\<lambda>i. i) [None, None, Some [Some 55, Some 50, Some (510::int), None]]
     \<lparr>arr = 2, capacity = 4, current = 3\<rparr> 2
     = Inr ([Text ''At index '', Number 2, Text '' : '', Value 510, Endl], - 1) \<and>
   step (\<lambda>i. i) ([None, None, Some [Some 55, Some 50, Some (510::int), None]],
     \<lparr>arr = 2, capacity = 4, current = 3\<rparr>) (Get 2)
     = Inr (([None, None, Some [Some 55, Some 50, Some 510, None]],
             \<lparr>arr = 2, capacity = 4, current = 3\<rparr>),
            Got [Text ''At index '', Number 2, Text '' : '', Value 510, Endl] (- 1))"
proof -
  let ?h = "[None, None, Some [Some 55, Some 50, Some (510::int), None]]"
  let ?t = "\<lparr>arr = 2, capacity = 4, current = 3\<rparr>"
  have wf: "well_formed ?h ?t"
    by (simp add: well_formed_def buffer_ok_def block_at_def INT_MIN_def INT_MAX_def eval_nat_numeral)
  have el: "elements ?h ?t ! nat 2 = 510"
    by (simp add: elements_def block_at_def eval_nat_numeral)
  from get_prints_element[OF wf, of 2 "\<lambda>i. i"] wf el show ?thesis
    by (simp add: getSize_def)
qed

text \<open>
  The counterexample to C2 as stated: on the container 55, 50, 510 the call \<open>get(2)\<close>
  returns \<open>-1\<close> while it prints 510, and \<open>get(10)\<close> returns \<open>-1\<close> with no output and no
  failure.
\<close>

theorem get_returns_sentinel_counterexample:
  "session (\<lambda>i. i) [Push 55, Push 50, Push 510, Get 2, Get 10] =
     Inr (([None, None, Some [Some 55, Some 50, Some 510, None]],
           \<lparr>arr = 2, capacity = 4, current = 3\<rparr>),
          [Returned, Returned, Returned,
           Got [Text ''At index '', Number 2, Text '' : '', Value 510, Endl] (- 1),
           Got [] (- 1)])"
  by (simp add: exec_simps eval_nat_numeral)

subsection \<open>C3: the positional \<open>push\<close> against its contract\<close>

text \<open>
  Claim C3 gives \<open>push(v, index)\<close> three behaviours: the plain append when \<open>index\<close> is the
  length, an overwrite of slot \<open>index\<close> without any shift when \<open>0 \<le> index < length\<close>, and
  an OutOfRange failure when \<open>index\<close> is negative or beyond the length.

  The source announces the function as \<open>// push to perticuler index\<close> and has the
  overwrite in its \<open>else\<close> branch, \<open>arr[index] = data\<close>. The condition in front of it is
  written \<open>index = capacity\<close>, an assignment where a comparison \<open>==\<close> is meant: its value
  is the capacity, which is never zero, so the \<open>else\<close> branch cannot be reached and every
  call appends.
\<close>

text \<open>
  C3 at the failing input, the container 55, 50, 510 and the call \<open>push(7, 0)\<close>: the
  claim has slot 0 overwritten with 7 and the size still 3. The code returns with size 4
  and the elements 55, 50, 510, 7; slot 0 still holds 55. The last equation is the write
  \<open>arr[0] = 7\<close> of the \<open>else\<close> branch on the same state, which is the overwrite of the
  claim and is what the call does not do.
\<close>

theorem push_at_no_overwrite:
  "session (\<lambda>i. i) [Push 55, Push 50, Push 510, PushAt 7 0, GetSize, Print]
     = Inr (([None, None, Some [Some 55, Some 50, Some 510, Some 7]],
             \<lparr>arr = 2, capacity = 4, current = 4\<rparr>),
            [Returned, Returned, Returned, Returned, ReturnedInt 4,
             Printed [Value 55, Text '' ,'', Value 50, Text '' ,'', Value 510, Text '' ,'',
                      Value 7, Text '' ,'', Endl]]) \<and>
   push_at [None, None, Some [Some 55, Some 50, Some (510::int), None]]
       \<lparr>arr = 2, capacity = 4, current = 3\<rparr> 7 0
     = Inr ([None, None, Some [Some 55, Some 50, Some 510, Some 7]],
            \<lparr>arr = 2, capacity = 4, current = 4\<rparr>) \<and>
   store [None, None, Some [Some 55, Some 50, Some (510::int), None]] 2 0 7
     = Inr [None, None, Some [Some 7, Some 50, Some 510, None]]"
  by (simp add: exec_simps eval_nat_numeral)

subsection \<open>C4: what \<open>pop\<close> does\<close>

text \<open>
  Claim C4 says that \<open>pop\<close> takes one off the length when the length is positive and does
  nothing when it is 0, so that the size never goes below 0, and that its argument is
  ignored.

  The body of \<open>pop\<close> is the single statement \<open>current--\<close>: on an empty container it
  leaves \<open>current = -1\<close>.
\<close>

text \<open>
  C4 as amended: in every state whose length is an \<open>int\<close> above \<open>INT_MIN\<close>, \<open>pop\<close>
  returns with the length one smaller, whether the length was positive, zero or
  negative; it changes nothing else (buffer pointer, capacity and heap are as before),
  and the result does not depend on the argument.
\<close>

theorem pop_decrements:
  assumes "INT_MIN < current this" and "current this \<le> INT_MAX"
  shows "pop this data = Inr (this\<lparr>current := current this - 1\<rparr>) \<and>
         pop this data' = pop this data \<and>
         step fromInt (h, this) (Pop data) = Inr ((h, this\<lparr>current := current this - 1\<rparr>), Returned)"
proof -
  have "INT_MIN \<le> current this - 1" and "current this - 1 \<le> INT_MAX"
    using assms by linarith+
  then have "checked (current this - 1) = Inr (current this - 1)"
    by (rule checked_ok)
  then show ?thesis by (simp add: pop_def)
qed

theorem pop_decrements_witness:
  "INT_MIN < current \<lparr>arr = 0, capacity = 1, current = 0\<rparr> \<and>
   current \<lparr>arr = 0, capacity = 1, current = 0\<rparr> \<le> INT_MAX \<and>
   pop \<lparr>arr = 0, capacity = 1, current = 0\<rparr> (7::int) = Inr \<lparr>arr = 0, capacity = 1, current = - 1\<rparr> \<and>
   pop \<lparr>arr = 0, capacity = 1, current = 0\<rparr> (8::int) = pop \<lparr>arr = 0, capacity = 1, current = 0\<rparr> (7::int)"
proof -
  let ?t = "\<lparr>arr = 0, capacity = 1, current = 0\<rparr>"
  have a: "INT_MIN < current ?t" by (simp add: INT_MIN_def)
  have b: "current ?t \<le> INT_MAX" by (simp add: INT_MAX_def)
  from pop_decrements[OF a b, where data = "7::int" and data' = "8::int" and fromInt = "\<lambda>i. i" and h = "[]"] a b
  show ?thesis by simp
qed

text \<open>
  The counterexample to C4 as stated: \<open>pop\<close> on the freshly constructed, empty
  container returns and leaves the size at \<open>-1\<close>.
\<close>

theorem pop_empty_counterexample:
  "pop \<lparr>arr = 0, capacity = 1, current = 0\<rparr> (7::int) = Inr \<lparr>arr = 0, capacity = 1, current = - 1\<rparr> \<and>
   getSize \<lparr>arr = 0, capacity = 1, current = - 1\<rparr> < 0"
  by (simp add: pop_def checked_def INT_MIN_def INT_MAX_def getSize_def)

subsection \<open>C5: length and capacity after a sequence of calls\<close>

text \<open>
  Claim C5 says that after every finite sequence of calls on a fresh container
  \<open>0 \<le> size() \<le> capacityOf()\<close>.

  The upper bound holds; the lower one fails as soon as \<open>pop\<close> is called on an empty
  container.
\<close>

text \<open>
  C5 as amended: after every sequence of calls that returns, \<open>size() \<le> capacityOf()\<close> and
  \<open>capacityOf() \<ge> 1\<close>; and \<open>size() \<ge> 0\<close> when no \<open>pop\<close> of the sequence was called on an
  empty container.
\<close>

theorem size_within_capacity:
  assumes "session fromInt cs = Inr ((h, this), rs)"
  shows "getSize this \<le> getCapacity this \<and> 1 \<le> getCapacity this \<and>
         (pop_only_nonempty fromInt ([Some [None]], \<lparr>arr = 0, capacity = 1, current = 0\<rparr>) cs
            \<longrightarrow> 0 \<le> getSize this)"
proof -
  let ?s0 = "([Some [None]], \<lparr>arr = 0, capacity = 1, current = 0\<rparr>) :: 'a state"
  have ok: "buffer_ok h this" by (rule session_buffer_ok[OF assms])
  then have "current this \<le> capacity this" and "1 \<le> capacity this"
    by (auto elim!: buffer_okD)
  moreover have "0 \<le> current this" if g: "pop_only_nonempty fromInt ?s0 cs"
  proof -
    have r: "run fromInt ?s0 cs = Inr ((h, this), rs)"
      using assms by (simp add: session_run)
    have ok0: "buffer_ok (fst ?s0) (snd ?s0)"
      using construct_well_formed by (simp add: well_formed_def)
    from run_nonnegative[OF ok0 r _ g] show ?thesis by simp
  qed
  ultimately show ?thesis by (simp add: getSize_def getCapacity_def)
qed

theorem size_within_capacity_witness:
  "session (\<lambda>i. i) [Push (1::int), Pop 1, Push 2, Push 3, Get 0]
     = Inr (([None, Some [Some 2, Some 3]], \<lparr>arr = 1, capacity = 2, current = 2\<rparr>),
            [Returned, Returned, Returned, Returned,
             Got [Text ''At index '', Number 0, Text '' : '', Value 2, Endl] (- 1)]) \<and>
   pop_only_nonempty (\<lambda>i. i) ([Some [None]], \<lparr>arr = 0, capacity = 1, current = 0\<rparr>)
     [Push (1::int), Pop 1, Push 2, Push 3, Get 0] \<and>
   getSize \<lparr>arr = 1, capacity = 2, current = 2\<rparr> \<le> getCapacity \<lparr>arr = 1, capacity = 2, current = 2\<rparr> \<and>
   0 \<le> getSize \<lparr>arr = 1, capacity = 2, current = 2\<rparr>"
proof -
  let ?cs = "[Push (1::int), Pop 1, Push 2, Push 3, Get 0]"
  have s: "session (\<lambda>i. i) ?cs
     = Inr (([None, Some [Some 2, Some 3]], \<lparr>arr = 1, capacity = 2, current = 2\<rparr>),
            [Returned, Returned, Returned, Returned,
             Got [Text ''At index '', Number 0, Text '' : '', Value 2, Endl] (- 1)])"
    by (simp add: exec_simps eval_nat_numeral)
  have g: "pop_only_nonempty (\<lambda>i. i) ([Some [None]], \<lparr>arr = 0, capacity = 1, current = 0\<rparr>) ?cs"
    by (simp add: exec_simps eval_nat_numeral)
  from size_within_capacity[OF s] s g show ?thesis by simp
qed

text \<open>
  The counterexample to C5 as stated: one \<open>push\<close> and two \<open>pop\<close>s, after which
  \<open>getSize\<close> returns \<open>-1\<close>.
\<close>

theorem size_negative_counterexample:
  "session (\<lambda>i. i) [Push (1::int), Pop 1, Pop 1, GetSize, GetCapacity]
     = Inr (([Some [Some 1]], \<lparr>arr = 0, capacity = 1, current = - 1\<rparr>),
            [Returned, Returned, Returned, ReturnedInt (- 1), ReturnedInt 1])"
  by (simp add: exec_simps eval_nat_numeral)

subsection \<open>C6: the capacity after \<open>N\<close> appends\<close>

text \<open>
  Claim C6 says that for every \<open>N \<ge> 1\<close>, after exactly \<open>N\<close> appends to a fresh container
  the capacity is the smallest power of two that is at least \<open>N\<close>.

  That holds up to \<open>N = 2^30\<close>. The next append finds the buffer full at capacity
  \<open>2^30\<close>, and \<open>2 * capacity\<close> is outside the range of \<open>int\<close>: the append does not
  return, and no capacity \<open>2^31\<close> is ever reached.
\<close>

text \<open>
  C6 as amended: for every \<open>N\<close> with \<open>1 \<le> N \<le> 2^30\<close> and every list of \<open>N\<close> values,
  appending them to a fresh container returns, the size is \<open>N\<close>, and the capacity is a
  power of two \<open>2^k \<ge> N\<close> that is below or equal to every other power of two that is at
  least \<open>N\<close>.
\<close>

theorem appends_capacity:
  assumes "vs \<noteq> []" and "length vs \<le> 2 ^ 30"
  shows "\<exists>h this rs k. session fromInt (map Push vs) = Inr ((h, this), rs) \<and>
           getSize this = int (length vs) \<and>
           getCapacity this = 2 ^ k \<and> int (length vs) \<le> 2 ^ k \<and>
           (\<forall>j::nat. int (length vs) \<le> 2 ^ j \<longrightarrow> (2::int) ^ k \<le> 2 ^ j)"
proof -
  from pushes_state[OF assms(2), of fromInt] obtain h this rs k
    where s: "session fromInt (map Push vs) = Inr ((h, this), rs)"
      and wf: "well_formed h this" and cur: "current this = int (length vs)"
      and tight: "capacity this = 1 \<or> capacity this < 2 * current this"
      and k: "capacity this = 2 ^ (k::nat)"
    by blast
  from wf have le: "current this \<le> capacity this"
    by (auto simp: well_formed_def elim!: buffer_okD)
  have "\<forall>j::nat. int (length vs) \<le> 2 ^ j \<longrightarrow> (2::int) ^ k \<le> 2 ^ j"
    using tight_power_least[of k "int (length vs)"] tight k cur by auto
  with s cur k le show ?thesis
    by (auto simp: getSize_def getCapacity_def)
qed


theorem appends_capacity_witness:
  "[10, 20, 30 :: int] \<noteq> [] \<and> length [10, 20, 30 :: int] \<le> 2 ^ 30 \<and>
   session (\<lambda>i. i) (map Push [10, 20, 30 :: int])
     = Inr (([None, None, Some [Some 10, Some 20, Some 30, None]],
             \<lparr>arr = 2, capacity = 4, current = 3\<rparr>), [Returned, Returned, Returned]) \<and>
   (\<exists>k::nat. getCapacity \<lparr>arr = 2, capacity = 4, current = 3\<rparr> = 2 ^ k \<and>
      (3::int) \<le> 2 ^ k \<and> (2::int) ^ k \<le> 2 ^ 2)"
proof -
  let ?vs = "[10, 20, 30 :: int]"
  have ne: "?vs \<noteq> []" by simp
  have len: "length ?vs \<le> 2 ^ 30" by simp
  have s: "session (\<lambda>i. i) (map Push ?vs)
     = Inr (([None, None, Some [Some 10, Some 20, Some 30, None]],
             \<lparr>arr = 2, capacity = 4, current = 3\<rparr>), [Returned, Returned, Returned])"
    by (simp add: exec_simps eval_nat_numeral)
  from appends_capacity[OF ne len, of "\<lambda>i. i"] obtain k :: nat
    where "getCapacity \<lparr>arr = 2, capacity = 4, current = 3\<rparr> = 2 ^ k"
      and "int (length ?vs) \<le> 2 ^ k"
      and "\<forall>j::nat. int (length ?vs) \<le> 2 ^ j \<longrightarrow> (2::int) ^ k \<le> 2 ^ j"
    unfolding s by auto
  moreover from this(3) have "(2::int) ^ k \<le> 2 ^ 2"
    by (rule allE[of _ 2]) simp
  ultimately have "\<exists>k::nat. getCapacity \<lparr>arr = 2, capacity = 4, current = 3\<rparr> = 2 ^ k \<and>
      (3::int) \<le> 2 ^ k \<and> (2::int) ^ k \<le> 2 ^ 2"
    by auto
  with ne len s show ?thesis by blast
qed

text \<open>
  The counterexample to C6 as stated: \<open>N = 2^30 + 1\<close> appends do not return.
\<close>

theorem appends_overflow_counterexample:
  "session (\<lambda>i. i) (map Push (replicate (2 ^ 30) (0::int) @ [0])) = Inl SignedOverflow"
  by (rule pushes_overflow[OF refl])

subsection \<open>C7: the positional \<open>push\<close> is the plain \<open>push\<close>\<close>

text \<open>
  Claim C7: in every state reached by a sequence of calls on a fresh container, for every
  value and every index, \<open>push(v, index)\<close> leaves the container in exactly the state that
  \<open>push(v)\<close> leaves it in. The condition \<open>index = capacity\<close> is an assignment whose value,
  the capacity, is never zero, so the branch that calls \<open>push(v)\<close> is always taken and the
  write at \<open>index\<close> never happens. The two calls agree as functions: same result, same
  new state, and the same failure where \<open>push(v)\<close> fails.
\<close>

theorem push_at_degenerates:
  assumes "session fromInt cs = Inr ((h, this), rs)"
  shows "capacity this \<noteq> 0 \<and>
         push_at h this v index = push h this v \<and>
         step fromInt (h, this) (PushAt v index) = step fromInt (h, this) (Push v)"
proof -
  have "buffer_ok h this" by (rule session_buffer_ok[OF assms])
  then have "capacity this \<noteq> 0" by (rule buffer_ok_capacity)
  then show ?thesis by (simp add: push_at_push)
qed

theorem push_at_degenerates_witness:
  "session (\<lambda>i. i) [Push 55, Push 50, Push (510::int)]
     = Inr (([None, None, Some [Some 55, Some 50, Some 510, None]],
             \<lparr>arr = 2, capacity = 4, current = 3\<rparr>), [Returned, Returned, Returned]) \<and>
   push_at [None, None, Some [Some 55, Some 50, Some 510, None]]
       \<lparr>arr = 2, capacity = 4, current = 3\<rparr> (7::int) 0
     = Inr ([None, None, Some [Some 55, Some 50, Some 510, Some 7]],
            \<lparr>arr = 2, capacity = 4, current = 4\<rparr>) \<and>
   push [None, None, Some [Some 55, Some 50, Some 510, None]]
       \<lparr>arr = 2, capacity = 4, current = 3\<rparr> (7::int)
     = Inr ([None, None, Some [Some 55, Some 50, Some 510, Some 7]],
            \<lparr>arr = 2, capacity = 4, current = 4\<rparr>)"
proof -
  have s: "session (\<lambda>i. i) [Push 55, Push 50, Push (510::int)]
     = Inr (([None, None, Some [Some 55, Some 50, Some 510, None]],
             \<lparr>arr = 2, capacity = 4, current = 3\<rparr>), [Returned, Returned, Returned])"
    by (simp add: exec_simps eval_nat_numeral)
  have p: "push [None, None, Some [Some 55, Some 50, Some 510, None]]
       \<lparr>arr = 2, capacity = 4, current = 3\<rparr> (7::int)
     = Inr ([None, None, Some [Some 55, Some 50, Some 510, Some 7]],
            \<lparr>arr = 2, capacity = 4, current = 4\<rparr>)"
    by (simp add: exec_simps eval_nat_numeral)
  from push_at_degenerates[OF s, of 7 0] s p show ?thesis by simp
qed

subsection \<open>C8: \<open>get\<close> always returns the sentinel\<close>

text \<open>
  Claim C8 says that in every reachable state and for every integer index \<open>get\<close> returns
  \<open>-1\<close> converted to the element type, whether the index is valid or not, and passes the
  element on only through the print it performs when \<open>index < length\<close>.

  The test before the print is \<open>index < current\<close> alone. A negative index below the
  length passes it, and \<open>arr[index]\<close> is then read in front of the buffer: that read has
  no defined result, so neither has the call.
\<close>

text \<open>
  C8 as amended: in every state reached by a sequence of calls on a fresh container and
  for every index that is not negative or is at least the length, \<open>get\<close> returns \<open>-1\<close>
  converted to the element type; it prints the element at that index when
  \<open>index < length\<close> and prints nothing when \<open>index \<ge> length\<close>.
\<close>

theorem get_sentinel:
  assumes "session fromInt cs = Inr ((h, this), rs)"
    and "0 \<le> index \<or> getSize this \<le> index"
  shows "\<exists>out. get fromInt h this index = Inr (out, fromInt (- 1)) \<and>
           (index < getSize this \<longrightarrow>
              out = [Text ''At index '', Number index, Text '' : '',
                     Value (elements h this ! nat index), Endl]) \<and>
           (getSize this \<le> index \<longrightarrow> out = [])"
proof -
  have ok: "buffer_ok h this" by (rule session_buffer_ok[OF assms(1)])
  from get_Inr[OF ok, of index fromInt] assms(2) show ?thesis
    by (simp add: getSize_def)
qed

theorem get_sentinel_witness:
  "session (\<lambda>i. i) [Push 55, Push 50, Push (510::int)]
     = Inr (([None, None, Some [Some 55, Some 50, Some 510, None]],
             \<lparr>arr = 2, capacity = 4, current = 3\<rparr>), [Returned, Returned, Returned]) \<and>
   get (\<lambda>i. i) [None, None, Some [Some 55, Some 50, Some (510::int), None]]
     \<lparr>arr = 2, capacity = 4, current = 3\<rparr> 1
     = Inr ([Text ''At index '', Number 1, Text '' : '', Value 50, Endl], - 1) \<and>
   get (\<lambda>i. i) [None, None, Some [Some 55, Some 50, Some (510::int), None]]
     \<lparr>arr = 2, capacity = 4, current = 3\<rparr> 3 = Inr ([], - 1)"
proof -
  let ?h = "[None, None, Some [Some 55, Some 50, Some (510::int), None]]"
  let ?t = "\<lparr>arr = 2, capacity = 4, current = 3\<rparr>"
  have s: "session (\<lambda>i. i) [Push 55, Push 50, Push (510::int)]
     = Inr ((?h, ?t), [Returned, Returned, Returned])"
    by (simp add: exec_simps eval_nat_numeral)
  have i1: "0 \<le> (1::int) \<or> getSize ?t \<le> 1" by simp
  have i3: "0 \<le> (3::int) \<or> getSize ?t \<le> 3" by simp
  have el: "elements ?h ?t ! nat 1 = 50"
    by (simp add: elements_def block_at_def eval_nat_numeral)
  from get_sentinel[OF s i1] get_sentinel[OF s i3] s el show ?thesis
    by (simp add: getSize_def)
qed

text \<open>
  The counterexample to C8 as stated: with one element in the container, \<open>get(-1)\<close>
  passes the test \<open>index < current\<close> and reads \<open>arr[-1]\<close>.
\<close>

theorem get_negative_counterexample:
  "session (\<lambda>i. i) [Push (55::int), Get (- 1)] = Inl OutOfBounds"
  by (simp add: exec_simps eval_nat_numeral)

subsection \<open>C9: the capacities seen while appending five elements\<close>

text \<open>
  Claim C9 says that appending five elements to a fresh container shows the capacities
  1, 1, 2, 2, 4, 4, 4, 8, the last being the capacity after the fifth append.

  Read after construction and after each append, the capacity takes six values, and they
  are 1, 1, 2, 4, 4, 8: the third append already grows the buffer to 4.
\<close>

text \<open>
  C9 as amended: for any five values, the capacity read after construction and after
  each of the five appends is 1, 1, 2, 4, 4, 8, and \<open>getCapacity\<close> returns 8 after the
  fifth append.
\<close>

theorem five_appends_capacities:
  "observe_capacity fromInt [a, b, c, d, e] = Inr [1, 1, 2, 4, 4, 8] \<and>
   session fromInt [Push a, Push b, Push c, Push d, Push e, GetCapacity]
     = Inr (([None, None, None, Some [Some a, Some b, Some c, Some d, Some e, None, None, None]],
             \<lparr>arr = 3, capacity = 8, current = 5\<rparr>),
            [Returned, Returned, Returned, Returned, Returned, ReturnedInt 8])"
  by (simp add: observe_capacity_def exec_simps eval_nat_numeral)

text \<open>
  The counterexample to C9 as stated: the six readings for the values 10, 20, 30, 40, 50
  are not the eight of the claim.
\<close>

theorem five_appends_counterexample:
  "observe_capacity (\<lambda>i. i) [10, 20, 30, 40, 50 :: int] = Inr [1, 1, 2, 4, 4, 8] \<and>
   observe_capacity (\<lambda>i. i) [10, 20, 30, 40, 50 :: int] \<noteq> Inr [1, 1, 2, 2, 4, 4, 4, 8]"
  by (simp add: observe_capacity_def exec_simps eval_nat_numeral)

subsection \<open>C10: the capacity is a power of two\<close>

text \<open>
  Claim C10: the constructor sets the capacity to 1; after every sequence of calls on a
  fresh container that returns, the capacity is a power of two; and a further call either
  leaves the capacity as it is or doubles it exactly, the latter only in a \<open>push\<close> (plain,
  or positional, which calls the plain one) on a full buffer.
\<close>

theorem capacity_power_of_two:
  "(construct ([] :: 'a heap) = Inr ([Some [None]], \<lparr>arr = 0, capacity = 1, current = 0\<rparr>)) \<and>
   (session fromInt cs = Inr ((h :: 'a heap, this), rs) \<longrightarrow>
      (\<exists>k::nat. getCapacity this = 2 ^ k) \<and>
      (\<forall>c h' this' r.
         step fromInt (h, this) c = Inr ((h', this'), r) \<longrightarrow>
           getCapacity this' = getCapacity this \<or>
           (getCapacity this' = 2 * getCapacity this \<and> getCapacity this = getSize this \<and>
            (\<exists>v. c = Push v \<or> (\<exists>i. c = PushAt v i)))))"
proof (intro conjI impI)
  show "construct ([] :: 'a heap) = Inr ([Some [None]], \<lparr>arr = 0, capacity = 1, current = 0\<rparr>)"
    by (rule construct_empty)
next
  assume s: "session fromInt cs = Inr ((h, this), rs)"
  let ?s0 = "([Some [None]], \<lparr>arr = 0, capacity = 1, current = 0\<rparr>) :: 'a state"
  have r: "run fromInt ?s0 cs = Inr ((h, this), rs)"
    using s by (simp add: session_run)
  have ok0: "buffer_ok (fst ?s0) (snd ?s0)"
    using construct_well_formed by (simp add: well_formed_def)
  have "\<exists>k::nat. capacity (snd ?s0) = 2 ^ k"
    by (rule exI[of _ 0]) simp
  from run_power_of_two[OF ok0 r this]
  show "\<exists>k::nat. getCapacity this = 2 ^ k" by (simp add: getCapacity_def)
next
  assume s: "session fromInt cs = Inr ((h, this), rs)"
  have ok: "buffer_ok h this" by (rule session_buffer_ok[OF s])
  show "\<forall>c h' this' r.
         step fromInt (h, this) c = Inr ((h', this'), r) \<longrightarrow>
           getCapacity this' = getCapacity this \<or>
           (getCapacity this' = 2 * getCapacity this \<and> getCapacity this = getSize this \<and>
            (\<exists>v. c = Push v \<or> (\<exists>i. c = PushAt v i)))"
    using step_capacity[OF ok] by (simp add: getCapacity_def getSize_def)
qed

theorem capacity_power_of_two_witness:
  "session (\<lambda>i. i) [Push 1, Push 2, Pop 0, Push (3::int)]
     = Inr (([None, Some [Some 1, Some 3]], \<lparr>arr = 1, capacity = 2, current = 2\<rparr>),
            [Returned, Returned, Returned, Returned]) \<and>
   (\<exists>k::nat. getCapacity \<lparr>arr = 1, capacity = 2, current = 2\<rparr> = 2 ^ k) \<and>
   step (\<lambda>i. i) ([None, Some [Some 1, Some (3::int)]], \<lparr>arr = 1, capacity = 2, current = 2\<rparr>) (Push 4)
     = Inr (([None, None, Some [Some 1, Some 3, Some 4, None]], \<lparr>arr = 2, capacity = 4, current = 3\<rparr>),
            Returned)"
proof -
  have s: "session (\<lambda>i. i) [Push 1, Push 2, Pop 0, Push (3::int)]
     = Inr (([None, Some [Some 1, Some 3]], \<lparr>arr = 1, capacity = 2, current = 2\<rparr>),
            [Returned, Returned, Returned, Returned])"
    by (simp add: exec_simps eval_nat_numeral)
  have t: "step (\<lambda>i. i) ([None, Some [Some 1, Some (3::int)]], \<lparr>arr = 1, capacity = 2, current = 2\<rparr>) (Push 4)
     = Inr (([None, None, Some [Some 1, Some 3, Some 4, None]], \<lparr>arr = 2, capacity = 4, current = 3\<rparr>),
            Returned)"
    by (simp add: exec_simps eval_nat_numeral)
  from capacity_power_of_two[of "\<lambda>i. i" "[Push 1, Push 2, Pop 0, Push (3::int)]"
      "[None, Some [Some 1, Some 3]]" "\<lparr>arr = 1, capacity = 2, current = 2\<rparr>"
      "[Returned, Returned, Returned, Returned]"] s t
  show ?thesis by simp
qed


end
